theory Spec2Isabelle
  imports Main "HOL-Library.Word"
begin

section \<open>Column storage: data model\<close>

text \<open>
  The development embeds \<^verbatim>\<open>ColumnData\<close> (the second document of
  \<^verbatim>\<open>src/planner/operator/logical_get.cpp\<close>, which holds
  \<^verbatim>\<open>storage/table/column_data.cpp\<close>). The C++ types \<^verbatim>\<open>idx_t\<close>
  (\<^verbatim>\<open>uint64_t\<close>) and \<^verbatim>\<open>row_t\<close> (\<^verbatim>\<open>int64_t\<close>) are 64-bit
  words: \<open>+\<close>, \<open>-\<close> and \<open>*\<close> wrap, \<open>\<le>\<close> and \<open>div\<close> are unsigned,
  \<open>\<le>s\<close> is the signed comparison, and a cast between the two keeps the bits.
\<close>

type_synonym idx_t = "64 word"
type_synonym row_t = "64 word"

text \<open>
  Modelled from the spec: the vector block of the spec has 1024 rows; the macro
  \<^verbatim>\<open>STANDARD_VECTOR_SIZE\<close> is declared outside the sources at hand.
\<close>

definition STANDARD_VECTOR_SIZE :: idx_t where
  "STANDARD_VECTOR_SIZE = 1024"

text \<open>
  Every way a call can end other than by returning: the two exceptions the source
  throws (with their messages), a failed \<^verbatim>\<open>D_ASSERT\<close> (checked in debug builds
  only), and the dereference of a null or dangling segment pointer.
\<close>

datatype error =
    InternalException string
  | TransactionException string
  | AssertionFailure
  | NullDereference

text \<open>
  A vector, a segment's row buffer and the unified view of an input vector are buffers of
  cells addressed by position. A cell is \<open>None\<close> while nothing has been written to
  it.
\<close>

type_synonym 'v Vector = "nat \<Rightarrow> 'v option"

datatype ColumnSegmentType = TRANSIENT | PERSISTENT

datatype FilterPropagateResult =
    NO_PRUNING_POSSIBLE
  | FILTER_ALWAYS_TRUE
  | FILTER_ALWAYS_FALSE
  | FILTER_TRUE_OR_NULL
  | FILTER_FALSE_OR_NULL

text \<open>
  What the source takes from outside \<^verbatim>\<open>ColumnData\<close>: whether assertions are
  compiled in, the constants \<^verbatim>\<open>Storage::BLOCK_SIZE\<close> and \<^verbatim>\<open>MAX_ROW_ID\<close>,
  the number of rows a segment of a given byte size holds (owned by the compression
  function), and the statistics operations \<^verbatim>\<open>BaseStatistics::Merge\<close>,
  \<^verbatim>\<open>BaseStatistics::CreateEmpty\<close> and the per-value update done on append. They
  are parameters: every theorem holds for each choice of them.
\<close>

record ('v, 'st) Env =
  debug :: bool
  BLOCK_SIZE :: idx_t
  MAX_ROW_ID :: idx_t
  max_tuple_count :: "idx_t \<Rightarrow> idx_t"
  Merge :: "'st \<Rightarrow> 'st \<Rightarrow> 'st"
  CreateEmpty :: 'st
  UpdateStats :: "'st \<Rightarrow> 'v option \<Rightarrow> 'st"

text \<open>
  A segment: \<^verbatim>\<open>start\<close>, \<^verbatim>\<open>count\<close>, \<^verbatim>\<open>segment_type\<close> and
  \<^verbatim>\<open>stats\<close> are the fields the source reads and writes; \<open>rows\<close> is the
  decoded content of its block (cell \<open>k\<close> is the row \<open>start + k\<close>), \<open>can_append\<close>
  says that the compression function has an \<^verbatim>\<open>init_append\<close>.
\<close>

record ('v, 'st) ColumnSegment =
  start :: idx_t
  count :: idx_t
  segment_type :: ColumnSegmentType
  stats :: 'st
  rows :: "'v Vector"
  segment_size :: idx_t
  can_append :: bool
  block_id :: idx_t
  block_offset :: idx_t
  compression_type :: nat

text \<open>
  Modelled from the spec: the Update Overlay (\<^verbatim>\<open>UpdateSegment\<close>, outside the
  sources at hand) is keyed by vector block and row offset and holds entries
  \<open>{transactionId, committedId, oldValue, newValue}\<close>. It is the list of its entries,
  oldest first; \<open>commit_id = None\<close> marks an entry that is not committed.
\<close>

record 'v UpdateInfo =
  vector_index :: idx_t
  row_offset :: nat
  transaction_id :: idx_t
  commit_id :: "idx_t option"
  old_value :: "'v option"
  new_value :: "'v option"

type_synonym 'v UpdateSegment = "'v UpdateInfo list"

record TransactionData =
  tx_transaction_id :: idx_t
  tx_start_time :: idx_t

text \<open>
  The column. The segment tree \<open>data\<close> is the ordered list of its segments, a segment
  pointer is an index into it. \<open>type_size\<close> is
  \<^verbatim>\<open>GetTypeIdSize(type.InternalType())\<close>, all that the source uses of the logical
  type here; \<open>block_manager\<close> gives the decoded rows of a persisted block.
\<close>

record ('v, 'st) ColumnData =
  col_start :: idx_t
  col_count :: idx_t
  block_manager :: "idx_t \<Rightarrow> idx_t \<Rightarrow> 'v Vector"
  column_index :: idx_t
  type_size :: idx_t
  parent :: "idx_t option"
  allocation_size :: idx_t
  data :: "('v, 'st) ColumnSegment list"
  updates :: "'v UpdateSegment option"
  col_stats :: "'st option"

record ColumnScanState =
  current :: "nat option"
  row_index :: idx_t
  internal_index :: idx_t
  initialized :: bool
  scan_state :: "nat option"
  previous_states :: "nat option list"
  segment_checked :: bool
  last_offset :: idx_t
  force_fetch_row :: bool

record ColumnAppendState =
  app_current :: "nat option"
  append_state :: "nat option"

record 'st DataPointer =
  dp_block_id :: idx_t
  dp_offset :: idx_t
  row_start :: idx_t
  tuple_count :: idx_t
  dp_compression_type :: nat
  statistics :: 'st

record ('v, 'st) ColumnCheckpointState =
  new_tree :: "('v, 'st) ColumnSegment list"
  global_stats :: 'st

section \<open>The segment tree and the segments\<close>

text \<open>
  Modelled from the spec: \<^verbatim>\<open>SegmentTree\<close> is outside the sources at hand.
  \<open>AppendSegment\<close> adds at the tail; \<open>GetLastSegment\<close>, \<open>GetRootSegment\<close> and
  \<open>GetNextSegment\<close> return no segment where there is none; \<open>GetSegmentIndex\<close>
  locates the segment whose range contains the row and fails with an
  internal-consistency error when there is none; \<open>MoveSegments\<close> detaches the whole
  list, \<open>Replace\<close> swaps a list in. \<open>EraseSegments\<close> keeps the segments up to and
  with the index and removes the later ones, as the comment at its call in
  \<^verbatim>\<open>RevertAppend\<close> says (remove any segments AFTER this segment).
\<close>

definition deref ::
  "('v, 'st) ColumnSegment list \<Rightarrow> nat option \<Rightarrow> error + ('v, 'st) ColumnSegment" where
  "deref segs p =
     (case p of
        None \<Rightarrow> Inl NullDereference
      | Some i \<Rightarrow> if i < length segs then Inr (segs ! i) else Inl NullDereference)"

definition AppendSegment ::
  "('v, 'st) ColumnSegment list \<Rightarrow> ('v, 'st) ColumnSegment \<Rightarrow> ('v, 'st) ColumnSegment list" where
  "AppendSegment segs seg = segs @ [seg]"

definition GetRootSegment :: "('v, 'st) ColumnSegment list \<Rightarrow> nat option" where
  "GetRootSegment segs = (if segs = [] then None else Some 0)"

definition GetLastSegment :: "('v, 'st) ColumnSegment list \<Rightarrow> nat option" where
  "GetLastSegment segs = (if segs = [] then None else Some (length segs - 1))"

definition GetNextSegment :: "('v, 'st) ColumnSegment list \<Rightarrow> nat option \<Rightarrow> nat option" where
  "GetNextSegment segs p =
     (case p of
        None \<Rightarrow> None
      | Some i \<Rightarrow> if Suc i < length segs then Some (Suc i) else None)"

definition HasSegment :: "('v, 'st) ColumnSegment list \<Rightarrow> nat option \<Rightarrow> bool" where
  "HasSegment segs p = (case p of None \<Rightarrow> False | Some i \<Rightarrow> i < length segs)"

definition contains_row :: "('v, 'st) ColumnSegment \<Rightarrow> idx_t \<Rightarrow> bool" where
  "contains_row seg r \<longleftrightarrow> start seg \<le> r \<and> r - start seg < count seg"

fun find_segment :: "('v, 'st) ColumnSegment list \<Rightarrow> idx_t \<Rightarrow> nat \<Rightarrow> nat option" where
  "find_segment [] r i = None"
| "find_segment (seg # segs) r i =
     (if contains_row seg r then Some i else find_segment segs r (Suc i))"

definition GetSegmentIndex :: "('v, 'st) ColumnSegment list \<Rightarrow> idx_t \<Rightarrow> error + nat" where
  "GetSegmentIndex segs r =
     (case find_segment segs r 0 of
        None \<Rightarrow> Inl (InternalException ''Attempting to find a row outside of the segment tree'')
      | Some i \<Rightarrow> Inr i)"

definition GetSegment :: "('v, 'st) ColumnSegment list \<Rightarrow> idx_t \<Rightarrow> error + nat" where
  "GetSegment segs r = GetSegmentIndex segs r"

definition EraseSegments ::
  "('v, 'st) ColumnSegment list \<Rightarrow> nat \<Rightarrow> ('v, 'st) ColumnSegment list" where
  "EraseSegments segs segment_index = take (Suc segment_index) segs"

text \<open>
  Modelled from the spec: \<^verbatim>\<open>ColumnSegment\<close> is outside the sources at hand; the
  spec gives its contract. A transient segment is created empty with the start row and
  byte size it is given, a persistent one with the fields of its data pointer.
  \<open>Append\<close> copies as many of the requested rows as the segment still has room for,
  from \<open>offset\<close> on, and returns their number; \<open>Scan\<close> decodes exactly the requested
  number of rows from the cursor's row on into the output at \<open>result_offset\<close>
  (decoding in place or through a copy gives the same cells); \<open>FetchRow\<close> decodes one
  row; \<open>RevertAppend\<close> discards the rows at and after the given row; the segment's
  \<open>InitializeScan\<close> sets up the decode sub-state of the cursor and its \<open>Skip\<close> moves
  the decoder forward to the cursor's row.
\<close>

definition CreateTransientSegment ::
  "('v, 'st) Env \<Rightarrow> idx_t \<Rightarrow> idx_t \<Rightarrow> ('v, 'st) ColumnSegment" where
  "CreateTransientSegment env start_row seg_size =
     \<lparr>start = start_row, count = 0, segment_type = TRANSIENT, stats = CreateEmpty env,
      rows = (\<lambda>k. None), segment_size = seg_size, can_append = True,
      block_id = 0, block_offset = 0, compression_type = 0\<rparr>"

definition CreatePersistentSegment ::
  "(idx_t \<Rightarrow> idx_t \<Rightarrow> 'v Vector) \<Rightarrow> idx_t \<Rightarrow> idx_t \<Rightarrow> idx_t \<Rightarrow> idx_t \<Rightarrow> nat \<Rightarrow> 'st
     \<Rightarrow> ('v, 'st) ColumnSegment" where
  "CreatePersistentSegment blocks blk off row_start_p tuples compression st =
     \<lparr>start = row_start_p, count = tuples, segment_type = PERSISTENT, stats = st,
      rows = blocks blk off, segment_size = 0, can_append = False,
      block_id = blk, block_offset = off, compression_type = compression\<rparr>"

definition ColumnSegment_Append ::
  "('v, 'st) Env \<Rightarrow> ('v, 'st) ColumnSegment \<Rightarrow> 'v Vector \<Rightarrow> idx_t \<Rightarrow> idx_t
     \<Rightarrow> ('v, 'st) ColumnSegment \<times> idx_t" where
  "ColumnSegment_Append env seg vdata offset append_count =
     (let copy_count = min append_count (max_tuple_count env (segment_size seg) - count seg);
          copied = map (\<lambda>k. vdata (unat offset + k)) [0..<unat copy_count]
      in (seg\<lparr>rows := (\<lambda>k. if unat (count seg) \<le> k \<and> k < unat (count seg) + unat copy_count
                             then vdata (unat offset + (k - unat (count seg)))
                             else rows seg k),
               stats := fold (\<lambda>v s. UpdateStats env s v) copied (stats seg),
               count := count seg + copy_count\<rparr>,
          copy_count))"

definition ColumnSegment_Scan ::
  "('v, 'st) ColumnSegment \<Rightarrow> ColumnScanState \<Rightarrow> idx_t \<Rightarrow> 'v Vector \<Rightarrow> idx_t \<Rightarrow> bool
     \<Rightarrow> 'v Vector" where
  "ColumnSegment_Scan seg state scan_count result result_offset entire_vector =
     (\<lambda>k. if unat result_offset \<le> k \<and> k < unat result_offset + unat scan_count
          then rows seg (unat (row_index state - start seg) + (k - unat result_offset))
          else result k)"

definition ColumnSegment_FetchRow ::
  "('v, 'st) ColumnSegment \<Rightarrow> row_t \<Rightarrow> 'v Vector \<Rightarrow> idx_t \<Rightarrow> 'v Vector" where
  "ColumnSegment_FetchRow seg row_id result result_idx =
     result(unat result_idx := rows seg (unat (row_id - start seg)))"

definition ColumnSegment_RevertAppend ::
  "('v, 'st) ColumnSegment \<Rightarrow> idx_t \<Rightarrow> ('v, 'st) ColumnSegment" where
  "ColumnSegment_RevertAppend seg start_row = seg\<lparr>count := start_row - start seg\<rparr>"

definition ColumnSegment_InitializeScan :: "nat \<Rightarrow> ColumnScanState \<Rightarrow> ColumnScanState" where
  "ColumnSegment_InitializeScan i state = state\<lparr>scan_state := Some i\<rparr>"

definition ColumnSegment_Skip :: "ColumnScanState \<Rightarrow> ColumnScanState" where
  "ColumnSegment_Skip state = state\<lparr>internal_index := row_index state\<rparr>"

definition ColumnSegment_InitializeAppend :: "nat \<Rightarrow> ColumnAppendState \<Rightarrow> ColumnAppendState" where
  "ColumnSegment_InitializeAppend i state = state\<lparr>append_state := Some i\<rparr>"

text \<open>
  Modelled from the spec: the read side of the Update Overlay. A reader sees an entry
  that was committed at or before its snapshot, or that its own transaction wrote; a
  committed-only read sees the entries with a commit id and no other. Of the entries of
  one row the latest one seen wins. \<open>HasUncommittedUpdates\<close> says that the vector
  block holds an entry that is not committed.
\<close>

definition HasUncommittedUpdates :: "'v UpdateSegment \<Rightarrow> idx_t \<Rightarrow> bool" where
  "HasUncommittedUpdates u vidx = list_ex (\<lambda>e. vector_index e = vidx \<and> commit_id e = None) u"

definition visible :: "TransactionData \<Rightarrow> 'v UpdateInfo \<Rightarrow> bool" where
  "visible transaction e =
     (case commit_id e of
        Some c \<Rightarrow> c \<le> tx_start_time transaction
      | None \<Rightarrow> transaction_id e = tx_transaction_id transaction)"

definition UpdateSegment_FetchUpdates ::
  "'v UpdateSegment \<Rightarrow> TransactionData \<Rightarrow> idx_t \<Rightarrow> 'v Vector \<Rightarrow> 'v Vector" where
  "UpdateSegment_FetchUpdates u transaction vidx result =
     fold (\<lambda>e r. if vector_index e = vidx \<and> visible transaction e
                  then r(row_offset e := new_value e) else r) u result"

definition UpdateSegment_FetchCommitted :: "'v UpdateSegment \<Rightarrow> idx_t \<Rightarrow> 'v Vector \<Rightarrow> 'v Vector" where
  "UpdateSegment_FetchCommitted u vidx result =
     fold (\<lambda>e r. if vector_index e = vidx \<and> commit_id e \<noteq> None
                  then r(row_offset e := new_value e) else r) u result"



section \<open>ColumnData\<close>

text \<open>
  Each definition below follows the function of the same name in the source, statement by
  statement. What changes no value of the model is left out: the locks (the model is
  sequential), \<^verbatim>\<open>Vector::Flatten\<close> and \<^verbatim>\<open>ToUnifiedFormat\<close> (a vector is its
  cells), \<^verbatim>\<open>SegmentTree::Reinitialize\<close> and the \<^verbatim>\<open>next\<close> link of a segment (the
  tree is the list of its segments, the successor of a segment the next one in the list).
  A \<^verbatim>\<open>D_ASSERT(c)\<close> is \<open>if debug env \<and> \<not> c then Inl AssertionFailure\<close>.
\<close>

subsection \<open>Construction, start, updates\<close>

definition ColumnData_new ::
  "('v, 'st) Env \<Rightarrow> (idx_t \<Rightarrow> idx_t \<Rightarrow> 'v Vector) \<Rightarrow> idx_t \<Rightarrow> idx_t \<Rightarrow> idx_t \<Rightarrow> idx_t option
     \<Rightarrow> ('v, 'st) ColumnData" where
  "ColumnData_new env block_manager_p column_index_p start_row type_size_p parent_p =
     \<lparr>col_start = start_row, col_count = 0, block_manager = block_manager_p,
      column_index = column_index_p, type_size = type_size_p, parent = parent_p,
      allocation_size = 0, data = [], updates = None,
      col_stats = (if parent_p = None then Some (CreateEmpty env) else None)\<rparr>"

fun SetStart_segments ::
  "idx_t \<Rightarrow> idx_t \<Rightarrow> ('v, 'st) ColumnSegment list \<Rightarrow> ('v, 'st) ColumnSegment list" where
  "SetStart_segments st offset [] = []"
| "SetStart_segments st offset (segment # segs) =
     segment\<lparr>start := st + offset\<rparr> # SetStart_segments st (offset + count segment) segs"

definition SetStart :: "('v, 'st) ColumnData \<Rightarrow> idx_t \<Rightarrow> ('v, 'st) ColumnData" where
  "SetStart col new_start =
     (let col1 = col\<lparr>col_start := new_start\<rparr>
      in col1\<lparr>data := SetStart_segments (col_start col1) 0 (data col1)\<rparr>)"

definition HasUpdates :: "('v, 'st) ColumnData \<Rightarrow> bool" where
  "HasUpdates col = (updates col \<noteq> None)"

definition ClearUpdates :: "('v, 'st) ColumnData \<Rightarrow> ('v, 'st) ColumnData" where
  "ClearUpdates col = col\<lparr>updates := None\<rparr>"

definition GetMaxEntry :: "('v, 'st) ColumnData \<Rightarrow> idx_t" where
  "GetMaxEntry col = col_count col"

subsection \<open>Scan\<close>

definition InitializeScan :: "('v, 'st) ColumnData \<Rightarrow> ColumnScanState \<Rightarrow> ColumnScanState" where
  "InitializeScan col state =
     (let state1 = state\<lparr>current := GetRootSegment (data col)\<rparr>;
          state2 = state1\<lparr>row_index := (case current state1 of
                                            Some i \<Rightarrow> start (data col ! i) | None \<Rightarrow> 0)\<rparr>;
          state3 = state2\<lparr>internal_index := row_index state2\<rparr>
      in state3\<lparr>initialized := False, scan_state := None, last_offset := 0\<rparr>)"

definition InitializeScanWithOffset ::
  "('v, 'st) ColumnData \<Rightarrow> ColumnScanState \<Rightarrow> idx_t \<Rightarrow> error + ColumnScanState" where
  "InitializeScanWithOffset col state row_idx =
     (case GetSegment (data col) row_idx of
        Inl e \<Rightarrow> Inl e
      | Inr i \<Rightarrow>
          Inr (state\<lparr>current := Some i, row_index := row_idx,
                     internal_index := start (data col ! i), initialized := False,
                     scan_state := None, last_offset := 0\<rparr>))"

text \<open>
  The body of the \<^verbatim>\<open>force_fetch_row\<close> loop: rows \<open>row_index + i\<close> for
  \<open>i < scan_count\<close>, one \<^verbatim>\<open>FetchRow\<close> each.
\<close>

definition FetchRows ::
  "('v, 'st) ColumnSegment \<Rightarrow> ColumnScanState \<Rightarrow> idx_t \<Rightarrow> 'v Vector \<Rightarrow> idx_t \<Rightarrow> 'v Vector" where
  "FetchRows seg state scan_count result result_offset =
     fold (\<lambda>i r. ColumnSegment_FetchRow seg (row_index state + of_nat i) r (result_offset + of_nat i))
       [0..<unat scan_count] result"

text \<open>
  The \<^verbatim>\<open>while (remaining > 0)\<close> loop of \<^verbatim>\<open>ScanVector\<close>. It returns the
  cursor, the output and what is left of \<open>remaining\<close>.
\<close>

function ScanVector_loop ::
  "('v, 'st) Env \<Rightarrow> ('v, 'st) ColumnSegment list \<Rightarrow> bool \<Rightarrow> idx_t \<Rightarrow> ColumnScanState
     \<Rightarrow> 'v Vector \<Rightarrow> idx_t \<Rightarrow> error + (ColumnScanState \<times> 'v Vector \<times> idx_t)" where
  "ScanVector_loop env segs has_updates initial_remaining state result remaining =
     (if 0 < remaining then
        (case deref segs (current state) of
           Inl e \<Rightarrow> Inl e
         | Inr seg \<Rightarrow>
             if debug env \<and> \<not> (start seg \<le> row_index state
                                \<and> row_index state \<le> start seg + count seg)
             then Inl AssertionFailure
             else
               let scan_count = min remaining (start seg + count seg - row_index state);
                   result_offset = initial_remaining - remaining;
                   result1 =
                     (if 0 < scan_count then
                        (if force_fetch_row state
                         then FetchRows seg state scan_count result result_offset
                         else ColumnSegment_Scan seg state scan_count result result_offset
                                (\<not> has_updates \<and> scan_count = initial_remaining))
                      else result);
                   state1 =
                     (if 0 < scan_count then state\<lparr>row_index := row_index state + scan_count\<rparr>
                      else state);
                   remaining1 = (if 0 < scan_count then remaining - scan_count else remaining)
               in if 0 < remaining1 then
                    (case GetNextSegment segs (current state1) of
                       None \<Rightarrow> Inr (state1, result1, remaining1)
                     | Some n \<Rightarrow>
                         let state2 = state1\<lparr>previous_states :=
                                                previous_states state1 @ [scan_state state1]\<rparr>;
                             state3 = state2\<lparr>current := Some n\<rparr>;
                             state4 = ColumnSegment_InitializeScan n state3;
                             state5 = state4\<lparr>segment_checked := False\<rparr>
                         in if debug env \<and> \<not> (start (segs ! n) \<le> row_index state5
                                  \<and> row_index state5 \<le> start (segs ! n) + count (segs ! n))
                            then Inl AssertionFailure
                            else ScanVector_loop env segs has_updates initial_remaining
                                   state5 result1 remaining1)
                  else Inr (state1, result1, remaining1))
      else Inr (state, result, remaining))"
  by pat_completeness auto

termination ScanVector_loop
proof (relation "measures
    [\<lambda>(env, segs, has_updates, initial_remaining, state, result, remaining). unat remaining,
     \<lambda>(env, segs, has_updates, initial_remaining, state, result, remaining).
        length segs - (case current state of Some i \<Rightarrow> i | None \<Rightarrow> 0)]", goal_cases)
  case 1
  show ?case by simp
next
  case (2 env segs has_updates initial_remaining state result remaining seg scan_count
          result_offset result1 state1 remaining1 n state2 state3 state4 state5)
  show ?case
  proof (cases "0 < scan_count")
    case True
    have less: "unat (r - s) < unat r" if "0 < s" "s \<le> r" for r s :: idx_t
      using that by (simp add: unat_sub word_less_nat_alt word_le_nat_alt)
    have "unat remaining1 < unat remaining"
      using 2 True by (simp add: less)
    then show ?thesis by simp
  next
    case False
    then have same: "remaining1 = remaining" "current state1 = current state"
      using 2 by simp_all
    from 2 same have "current state5 = Some n"
      by (simp add: ColumnSegment_InitializeScan_def)
    moreover from 2 same obtain i where "current state = Some i" "n = Suc i" "Suc i < length segs"
      by (auto simp: GetNextSegment_def split: option.splits if_splits)
    ultimately show ?thesis using same by simp
  qed
qed

declare ScanVector_loop.simps [simp del]

text \<open>
  \<^verbatim>\<open>ColumnData::ScanVector(state, result, remaining, has_updates)\<close>: what comes
  before and after the loop. The logical type of a segment is not part of the model, so
  the assertion on it is not either.
\<close>

definition ScanVector ::
  "('v, 'st) Env \<Rightarrow> ('v, 'st) ColumnData \<Rightarrow> ColumnScanState \<Rightarrow> 'v Vector \<Rightarrow> idx_t \<Rightarrow> bool
     \<Rightarrow> error + (ColumnScanState \<times> 'v Vector \<times> idx_t)" where
  "ScanVector env col state0 result remaining has_updates =
     (let state = state0\<lparr>previous_states := []\<rparr> in
      case (if \<not> initialized state then
              (case current state of
                 None \<Rightarrow> Inl (if debug env then AssertionFailure else NullDereference)
               | Some i \<Rightarrow>
                   (case deref (data col) (Some i) of
                      Inl e \<Rightarrow> Inl e
                    | Inr seg \<Rightarrow>
                        Inr ((ColumnSegment_InitializeScan i state)
                               \<lparr>internal_index := start seg, initialized := True\<rparr>)))
            else Inr state) of
        Inl e \<Rightarrow> Inl e
      | Inr state1 \<Rightarrow>
          if debug env \<and> \<not> HasSegment (data col) (current state1) then Inl AssertionFailure
          else if debug env \<and> \<not> internal_index state1 \<le> row_index state1 then Inl AssertionFailure
          else
            (case (if internal_index state1 < row_index state1 then
                     (case deref (data col) (current state1) of
                        Inl e \<Rightarrow> Inl e
                      | Inr seg \<Rightarrow> Inr (ColumnSegment_Skip state1))
                   else Inr state1) of
               Inl e \<Rightarrow> Inl e
             | Inr state2 \<Rightarrow>
                 let initial_remaining = remaining in
                 (case ScanVector_loop env (data col) has_updates initial_remaining state2 result
                         remaining of
                    Inl e \<Rightarrow> Inl e
                  | Inr (state3, result1, remaining1) \<Rightarrow>
                      Inr (state3\<lparr>internal_index := row_index state3\<rparr>, result1,
                           initial_remaining - remaining1))))"

subsection \<open>Reading the update overlay\<close>

definition FetchUpdates ::
  "('v, 'st) ColumnData \<Rightarrow> TransactionData \<Rightarrow> idx_t \<Rightarrow> 'v Vector \<Rightarrow> idx_t \<Rightarrow> bool \<Rightarrow> bool
     \<Rightarrow> error + 'v Vector" where
  "FetchUpdates col transaction vidx result scan_count allow_updates scan_committed =
     (case updates col of
        None \<Rightarrow> Inr result
      | Some u \<Rightarrow>
          if \<not> allow_updates \<and> HasUncommittedUpdates u vidx
          then Inl (TransactionException ''Cannot create index with outstanding updates'')
          else if scan_committed then Inr (UpdateSegment_FetchCommitted u vidx result)
          else Inr (UpdateSegment_FetchUpdates u transaction vidx result))"


text \<open>
  The template \<^verbatim>\<open>ScanVector<SCAN_COMMITTED, ALLOW_UPDATES>\<close>, with its two template
  arguments as the first two parameters after the environment.
\<close>

definition ScanVector_template ::
  "('v, 'st) Env \<Rightarrow> bool \<Rightarrow> bool \<Rightarrow> ('v, 'st) ColumnData \<Rightarrow> TransactionData \<Rightarrow> idx_t
     \<Rightarrow> ColumnScanState \<Rightarrow> 'v Vector \<Rightarrow> error + (ColumnScanState \<times> 'v Vector \<times> idx_t)" where
  "ScanVector_template env SCAN_COMMITTED ALLOW_UPDATES col transaction vidx state result =
     (let current_row = vidx * STANDARD_VECTOR_SIZE;
          vector_count = min STANDARD_VECTOR_SIZE (col_count col - current_row)
      in case ScanVector env col state result vector_count (HasUpdates col) of
           Inl e \<Rightarrow> Inl e
         | Inr (state1, result1, scan_count) \<Rightarrow>
             (case FetchUpdates col transaction vidx result1 scan_count ALLOW_UPDATES
                     SCAN_COMMITTED of
                Inl e \<Rightarrow> Inl e
              | Inr result2 \<Rightarrow> Inr (state1, result2, scan_count)))"

definition Scan ::
  "('v, 'st) Env \<Rightarrow> ('v, 'st) ColumnData \<Rightarrow> TransactionData \<Rightarrow> idx_t \<Rightarrow> ColumnScanState
     \<Rightarrow> 'v Vector \<Rightarrow> error + (ColumnScanState \<times> 'v Vector \<times> idx_t)" where
  "Scan env col transaction vidx state result =
     ScanVector_template env False True col transaction vidx state result"


subsection \<open>Fetch by row id\<close>

definition Fetch_position ::
  "('v, 'st) ColumnData \<Rightarrow> ColumnScanState \<Rightarrow> row_t \<Rightarrow> error + ColumnScanState" where
  "Fetch_position col state row_id =
     (let state1 = state\<lparr>row_index :=
                      col_start col
                      + (row_id - col_start col) div STANDARD_VECTOR_SIZE * STANDARD_VECTOR_SIZE\<rparr>
      in case GetSegment (data col) (row_index state1) of
           Inl e \<Rightarrow> Inl e
         | Inr i \<Rightarrow>
             let state2 = state1\<lparr>current := Some i\<rparr>
             in Inr (state2\<lparr>internal_index := start (data col ! i)\<rparr>))"

definition Fetch ::
  "('v, 'st) Env \<Rightarrow> ('v, 'st) ColumnData \<Rightarrow> ColumnScanState \<Rightarrow> row_t \<Rightarrow> 'v Vector
     \<Rightarrow> error + (ColumnScanState \<times> 'v Vector \<times> idx_t)" where
  "Fetch env col state row_id result =
     (if debug env \<and> \<not> 0 \<le>s row_id then Inl AssertionFailure
      else if debug env \<and> \<not> col_start col \<le> row_id then Inl AssertionFailure
      else
        (case Fetch_position col state row_id of
           Inl e \<Rightarrow> Inl e
         | Inr state1 \<Rightarrow> ScanVector env col state1 result STANDARD_VECTOR_SIZE False))"

subsection \<open>Statistics\<close>

text \<open>
  A filter is what \<^verbatim>\<open>TableFilter::CheckStatistics\<close> answers on given statistics.
\<close>

definition CheckZonemap ::
  "('v, 'st) ColumnData \<Rightarrow> ('st \<Rightarrow> FilterPropagateResult) \<Rightarrow> error + bool" where
  "CheckZonemap col filter_p =
     (case col_stats col of
        None \<Rightarrow> Inl (InternalException ''ColumnData::CheckZonemap called on a column without stats'')
      | Some st \<Rightarrow>
          let propagate_result = filter_p st
          in if propagate_result = FILTER_ALWAYS_FALSE \<or> propagate_result = FILTER_FALSE_OR_NULL
             then Inr False else Inr True)"

definition GetStatistics :: "('v, 'st) ColumnData \<Rightarrow> error + 'st" where
  "GetStatistics col =
     (case col_stats col of
        None \<Rightarrow> Inl (InternalException ''ColumnData::GetStatistics called on a column without stats'')
      | Some st \<Rightarrow> Inr st)"

definition MergeStatistics ::
  "('v, 'st) Env \<Rightarrow> ('v, 'st) ColumnData \<Rightarrow> 'st \<Rightarrow> error + ('v, 'st) ColumnData" where
  "MergeStatistics env col other =
     (case col_stats col of
        None \<Rightarrow> Inl (InternalException ''ColumnData::MergeStatistics called on a column without stats'')
      | Some st \<Rightarrow> Inr (col\<lparr>col_stats := Some (Merge env st other)\<rparr>))"

definition MergeIntoStatistics ::
  "('v, 'st) Env \<Rightarrow> ('v, 'st) ColumnData \<Rightarrow> 'st \<Rightarrow> error + 'st" where
  "MergeIntoStatistics env col other =
     (case col_stats col of
        None \<Rightarrow> Inl (InternalException ''ColumnData::MergeIntoStatistics called on a column without stats'')
      | Some st \<Rightarrow> Inr (Merge env other st))"

subsection \<open>Append and revert\<close>

definition AppendTransientSegment ::
  "('v, 'st) Env \<Rightarrow> ('v, 'st) ColumnData \<Rightarrow> idx_t \<Rightarrow> ('v, 'st) ColumnData" where
  "AppendTransientSegment env col start_row =
     (let vector_segment_size =
            (if start_row = MAX_ROW_ID env then
               (if STANDARD_VECTOR_SIZE < 1024 then 1024 * type_size col
                else STANDARD_VECTOR_SIZE * type_size col)
             else BLOCK_SIZE env);
          seg_size = (if BLOCK_SIZE env < vector_segment_size then BLOCK_SIZE env
                      else vector_segment_size);
          col1 = col\<lparr>allocation_size := allocation_size col + seg_size\<rparr>;
          new_segment = CreateTransientSegment env start_row seg_size
      in col1\<lparr>data := AppendSegment (data col1) new_segment\<rparr>)"

definition InitializeAppend ::
  "('v, 'st) Env \<Rightarrow> ('v, 'st) ColumnData \<Rightarrow> ColumnAppendState
     \<Rightarrow> error + (('v, 'st) ColumnData \<times> ColumnAppendState)" where
  "InitializeAppend env col state =
     (let col1 = (if data col = [] then AppendTransientSegment env col (col_start col) else col)
      in case deref (data col1) (GetLastSegment (data col1)) of
           Inl e \<Rightarrow> Inl e
         | Inr segment \<Rightarrow>
             let (col2, state1) =
                   (if segment_type segment = PERSISTENT \<or> \<not> can_append segment then
                      let total_rows = start segment + count segment;
                          col2 = AppendTransientSegment env col1 total_rows
                      in (col2, state\<lparr>app_current := GetLastSegment (data col2)\<rparr>)
                    else (col1, state\<lparr>app_current := GetLastSegment (data col1)\<rparr>))
             in (case deref (data col2) (app_current state1) of
                   Inl e \<Rightarrow> Inl e
                 | Inr cur \<Rightarrow>
                     if debug env \<and> segment_type cur \<noteq> TRANSIENT then Inl AssertionFailure
                     else
                       let state2 = (case app_current state1 of
                                       Some i \<Rightarrow> ColumnSegment_InitializeAppend i state1
                                     | None \<Rightarrow> state1)
                       in if debug env \<and> \<not> can_append cur then Inl AssertionFailure
                          else Inr (col2, state2)))"

text \<open>
  The \<^verbatim>\<open>while (true)\<close> loop of \<^verbatim>\<open>AppendData\<close>. Nothing in the source
  bounds the number of its rounds, so the model is a partial function: \<open>None\<close> is a
  call that does not return.
\<close>

partial_function (option) AppendData_loop ::
  "('v, 'st) Env \<Rightarrow> ('v, 'st) ColumnData \<Rightarrow> 'st \<Rightarrow> ColumnAppendState \<Rightarrow> 'v Vector \<Rightarrow> idx_t
     \<Rightarrow> idx_t \<Rightarrow> (error + (('v, 'st) ColumnData \<times> 'st \<times> ColumnAppendState)) option" where
  "AppendData_loop env col append_stats state vdata offset append_count =
     (case app_current state of
        None \<Rightarrow> Some (Inl NullDereference)
      | Some i \<Rightarrow>
          if length (data col) \<le> i then Some (Inl NullDereference)
          else
            (case ColumnSegment_Append env (data col ! i) vdata offset append_count of
               (seg1, copied_elements) \<Rightarrow>
                 let col1 = col\<lparr>data := (data col)[i := seg1]\<rparr>;
                     append_stats1 = Merge env append_stats (stats seg1)
                 in if copied_elements = append_count
                    then Some (Inr (col1, append_stats1, state))
                    else
                      let col2 = AppendTransientSegment env col1 (start seg1 + count seg1);
                          state1 = state\<lparr>app_current := GetLastSegment (data col2)\<rparr>;
                          state2 = (case app_current state1 of
                                      Some j \<Rightarrow> ColumnSegment_InitializeAppend j state1
                                    | None \<Rightarrow> state1)
                      in AppendData_loop env col2 append_stats1 state2 vdata
                           (offset + copied_elements) (append_count - copied_elements)))"

declare AppendData_loop.simps [code]

definition AppendData ::
  "('v, 'st) Env \<Rightarrow> ('v, 'st) ColumnData \<Rightarrow> 'st \<Rightarrow> ColumnAppendState \<Rightarrow> 'v Vector \<Rightarrow> idx_t
     \<Rightarrow> (error + (('v, 'st) ColumnData \<times> 'st \<times> ColumnAppendState)) option" where
  "AppendData env col append_stats state vdata append_count =
     (let offset = 0;
          col1 = col\<lparr>col_count := col_count col + append_count\<rparr>
      in AppendData_loop env col1 append_stats state vdata offset append_count)"

text \<open>
  The two overloads of \<^verbatim>\<open>Append\<close>. The first takes the statistics to merge into
  (\<^verbatim>\<open>ToUnifiedFormat\<close> gives the view of the input vector, the same cells); the
  second guards, then passes the column's own statistics by reference, so what the first
  one leaves is written back.
\<close>

definition Append_stats ::
  "('v, 'st) Env \<Rightarrow> ('v, 'st) ColumnData \<Rightarrow> 'st \<Rightarrow> ColumnAppendState \<Rightarrow> 'v Vector \<Rightarrow> idx_t
     \<Rightarrow> (error + (('v, 'st) ColumnData \<times> 'st \<times> ColumnAppendState)) option" where
  "Append_stats env col append_stats state vector append_count =
     (let vdata = vector in AppendData env col append_stats state vdata append_count)"

definition Append ::
  "('v, 'st) Env \<Rightarrow> ('v, 'st) ColumnData \<Rightarrow> ColumnAppendState \<Rightarrow> 'v Vector \<Rightarrow> idx_t
     \<Rightarrow> (error + (('v, 'st) ColumnData \<times> ColumnAppendState)) option" where
  "Append env col state vector append_count =
     (case col_stats col of
        None \<Rightarrow>
          Some (Inl (InternalException
            ''ColumnData::Append called on a column with a parent or without stats''))
      | Some st \<Rightarrow>
          if parent col \<noteq> None
          then Some (Inl (InternalException
                 ''ColumnData::Append called on a column with a parent or without stats''))
          else
            (case Append_stats env col st state vector append_count of
               None \<Rightarrow> None
             | Some (Inl e) \<Rightarrow> Some (Inl e)
             | Some (Inr (col1, st1, state1)) \<Rightarrow>
                 Some (Inr (col1\<lparr>col_stats := Some st1\<rparr>, state1))))"

definition RevertAppend ::
  "('v, 'st) Env \<Rightarrow> ('v, 'st) ColumnData \<Rightarrow> row_t \<Rightarrow> error + ('v, 'st) ColumnData" where
  "RevertAppend env col start_row =
     (case deref (data col) (GetLastSegment (data col)) of
        Inl e \<Rightarrow> Inl e
      | Inr last_segment \<Rightarrow>
          if start last_segment + count last_segment \<le> start_row then
            (if debug env \<and> start_row \<noteq> start last_segment + count last_segment
             then Inl AssertionFailure
             else Inr col)
          else
            (case GetSegmentIndex (data col) start_row of
               Inl e \<Rightarrow> Inl e
             | Inr segment_index \<Rightarrow>
                 let segment = data col ! segment_index
                 in if debug env \<and> segment_type segment \<noteq> TRANSIENT then Inl AssertionFailure
                    else
                      let col1 = col\<lparr>data := EraseSegments (data col) segment_index\<rparr>;
                          col2 = col1\<lparr>col_count := start_row - col_start col1\<rparr>
                      in Inr (col2\<lparr>data := (data col2)
                                [segment_index := ColumnSegment_RevertAppend segment start_row]\<rparr>)))"

subsection \<open>Checkpoint and deserialization\<close>

text \<open>
  The checkpointer (\<^verbatim>\<open>ColumnDataCheckpointer\<close>) is a collaborator outside the
  sources at hand: it is a parameter, a function from the column, the moved-out segments
  and the fresh checkpoint state to the filled checkpoint state, or to an error.
\<close>

definition Checkpoint ::
  "('v, 'st) Env
     \<Rightarrow> (('v, 'st) ColumnData \<Rightarrow> ('v, 'st) ColumnSegment list \<Rightarrow> ('v, 'st) ColumnCheckpointState
          \<Rightarrow> error + ('v, 'st) ColumnCheckpointState)
     \<Rightarrow> ('v, 'st) ColumnData
     \<Rightarrow> error + (('v, 'st) ColumnData \<times> ('v, 'st) ColumnCheckpointState)" where
  "Checkpoint env checkpointer col =
     (let checkpoint_state = \<lparr>new_tree = [], global_stats = CreateEmpty env\<rparr>;
          nodes = data col;
          col1 = col\<lparr>data := []\<rparr>
      in if nodes = [] then Inr (col1, checkpoint_state)
         else
           (case checkpointer col1 nodes checkpoint_state of
              Inl e \<Rightarrow> Inl e
            | Inr checkpoint_state1 \<Rightarrow>
                let col2 = col1\<lparr>data := new_tree checkpoint_state1\<rparr>;
                    col3 = ClearUpdates col2
                in Inr (col3, checkpoint_state1)))"

fun DeserializeColumn_loop ::
  "('v, 'st) Env \<Rightarrow> ('v, 'st) ColumnData \<Rightarrow> 'st DataPointer list \<Rightarrow> 'st
     \<Rightarrow> ('v, 'st) ColumnData \<times> 'st" where
  "DeserializeColumn_loop env col [] target_stats = (col, target_stats)"
| "DeserializeColumn_loop env col (data_pointer # data_pointers) target_stats =
     (let col1 = col\<lparr>col_count := col_count col + tuple_count data_pointer\<rparr>;
          target_stats1 = Merge env target_stats (statistics data_pointer);
          segment = CreatePersistentSegment (block_manager col1) (dp_block_id data_pointer)
                      (dp_offset data_pointer) (row_start data_pointer)
                      (tuple_count data_pointer) (dp_compression_type data_pointer)
                      (statistics data_pointer);
          col2 = col1\<lparr>data := AppendSegment (data col1) segment\<rparr>
      in DeserializeColumn_loop env col2 data_pointers target_stats1)"

definition DeserializeColumn ::
  "('v, 'st) Env \<Rightarrow> ('v, 'st) ColumnData \<Rightarrow> 'st DataPointer list \<Rightarrow> 'st
     \<Rightarrow> ('v, 'st) ColumnData \<times> 'st" where
  "DeserializeColumn env col data_pointers target_stats =
     DeserializeColumn_loop env (col\<lparr>col_count := 0\<rparr>) data_pointers target_stats"

section \<open>Invariants and example values\<close>

text \<open>
  A column owns a statistics object exactly when it has no parent: the constructor
  establishes it, and no operation of the source changes either field's presence.
\<close>

definition stats_presence :: "('v, 'st) ColumnData \<Rightarrow> bool" where
  "stats_presence col \<longleftrightarrow> ((col_stats col = None) = (parent col \<noteq> None))"

text \<open>
  The logical content of a column: the rows of its segments, each segment read up to its
  count, in tree order.
\<close>

definition seg_rows :: "('v, 'st) ColumnSegment \<Rightarrow> 'v option list" where
  "seg_rows seg = map (rows seg) [0..<unat (count seg)]"

definition column_rows :: "('v, 'st) ColumnSegment list \<Rightarrow> 'v option list" where
  "column_rows segs = concat (map seg_rows segs)"

text \<open>
  What a run of the append loop leaves, on a column whose tree ends with the segments
  \<open>pre\<close> and then the cursor's segment \<open>seg\<close>: it returns; the tree is \<open>pre\<close>
  followed by the segments \<open>segs'\<close> written by the run, the first of which is
  \<open>seg\<close> grown and the others new transient segments; together they hold the rows of
  \<open>seg\<close> and then the \<open>n\<close> appended cells; the statistics of each of them were
  merged into the aggregate, in order; the cursor is at the tail.
\<close>

definition appended ::
  "('v, 'st) Env \<Rightarrow> ('v, 'st) ColumnData \<Rightarrow> ('v, 'st) ColumnSegment list \<Rightarrow> ('v, 'st) ColumnSegment
     \<Rightarrow> 'st \<Rightarrow> 'v Vector \<Rightarrow> idx_t \<Rightarrow> idx_t
     \<Rightarrow> (error + (('v, 'st) ColumnData \<times> 'st \<times> ColumnAppendState)) option \<Rightarrow> bool" where
  "appended env col pre seg append_stats vdata off n res \<longleftrightarrow>
     (\<exists>col' stats' state' segs'.
        res = Some (Inr (col', stats', state'))
        \<and> data col' = pre @ segs' \<and> segs' \<noteq> []
        \<and> col_count col' = col_count col
        \<and> sum_list (map count segs') = count seg + n
        \<and> column_rows segs' = seg_rows seg @ map (\<lambda>k. vdata (unat off + k)) [0..<unat n]
        \<and> list_all (\<lambda>s. segment_type s = TRANSIENT) (tl segs')
        \<and> segment_type (hd segs') = segment_type seg
        \<and> start (hd segs') = start seg
        \<and> stats' = foldl (Merge env) append_stats (map stats segs')
        \<and> app_current state' = Some (length pre + length segs' - 1)
        \<and> (length segs' = 1) = (n \<le> max_tuple_count env (segment_size seg) - count seg))"

text \<open>
  A chain of segments is contiguous when each segment starts where the one before it
  ends, and no segment's end passes the largest \<^verbatim>\<open>idx_t\<close>.
\<close>

fun contiguous :: "('v, 'st) ColumnSegment list \<Rightarrow> bool" where
  "contiguous [] = True"
| "contiguous [s] = (unat (start s) + unat (count s) < 2 ^ 64)"
| "contiguous (s # t # segs) =
     (unat (start s) + unat (count s) < 2 ^ 64 \<and> start t = start s + count s
      \<and> contiguous (t # segs))"

text \<open>
  What a run of the scan loop leaves when \<open>avail\<close> are the cells from the cursor's
  row to the end of the chain: it returns; of the \<open>r\<close> rows asked for it decoded
  \<open>r - r'\<close>, as many as \<open>avail\<close> has, into the output from position \<open>R - r\<close>
  on, and left the rest of the output alone; the cursor moved on by as many rows; and if
  rows are still missing, the cursor is at the end of the last segment.
\<close>

definition scanned ::
  "('v, 'st) ColumnSegment list \<Rightarrow> 'v option list \<Rightarrow> idx_t \<Rightarrow> idx_t \<Rightarrow> idx_t \<Rightarrow> 'v Vector
     \<Rightarrow> error + (ColumnScanState \<times> 'v Vector \<times> idx_t) \<Rightarrow> bool" where
  "scanned segs avail R r row res out \<longleftrightarrow>
     (\<exists>state' res' r'.
        out = Inr (state', res', r') \<and> r' \<le> r
        \<and> unat (r - r') = min (unat r) (length avail)
        \<and> res' = (\<lambda>k. if unat (R - r) \<le> k \<and> k < unat (R - r) + unat (r - r')
                        then avail ! (k - unat (R - r)) else res k)
        \<and> row_index state' = row + (r - r')
        \<and> (0 < r' \<longrightarrow> current state' = GetLastSegment segs
                      \<and> row_index state' = start (last segs) + count (last segs)))"

text \<open>
  The cells from row \<open>row\<close>, which lies in segment \<open>i\<close>, to the end of the chain.
\<close>

definition rows_from :: "('v, 'st) ColumnSegment list \<Rightarrow> nat \<Rightarrow> idx_t \<Rightarrow> 'v option list" where
  "rows_from segs i row = drop (unat (row - start (segs ! i))) (column_rows (drop i segs))"

text \<open>
  The invariant of the segment tree that the spec states: the segments are contiguous,
  the first one starts at the column's start, and together they hold as many rows as the
  column counts.
\<close>

definition tree_valid :: "('v, 'st) ColumnData \<Rightarrow> bool" where
  "tree_valid col \<longleftrightarrow>
     contiguous (data col)
     \<and> (data col \<noteq> [] \<longrightarrow> start (hd (data col)) = col_start col)
     \<and> length (column_rows (data col)) = unat (col_count col)"

text \<open>
  Example values, for the concrete instances below: four rows fit a segment of one
  block, statistics are the list of the values seen (so that the order of merges shows),
  and a row's value is its row id.
\<close>

definition ex_env :: "(nat, nat list) Env" where
  "ex_env = \<lparr>debug = False, BLOCK_SIZE = 16, MAX_ROW_ID = 36028797018960000,
             max_tuple_count = (\<lambda>sz. sz div 4), Merge = (\<lambda>a b. a @ b), CreateEmpty = [],
             UpdateStats = (\<lambda>s v. case v of None \<Rightarrow> s | Some x \<Rightarrow> s @ [x])\<rparr>"

definition ex_child :: "(nat, nat list) ColumnData" where
  "ex_child = ColumnData_new ex_env (\<lambda>blk off k. None) 1 0 4 (Some 0)"

definition ex_root :: "(nat, nat list) ColumnData" where
  "ex_root = ColumnData_new ex_env (\<lambda>blk off k. None) 0 0 4 None"

definition ex_seg :: "idx_t \<Rightarrow> idx_t \<Rightarrow> (nat, nat list) ColumnSegment" where
  "ex_seg s c =
     \<lparr>start = s, count = c, segment_type = TRANSIENT, stats = [],
      rows = (\<lambda>k. Some (unat s + k)), segment_size = 16, can_append = True,
      block_id = 0, block_offset = 0, compression_type = 0\<rparr>"

definition ex_col :: "(nat, nat list) ColumnData" where
  "ex_col = ex_root\<lparr>col_count := 5, data := [ex_seg 0 4, ex_seg 4 1]\<rparr>"

definition ex_committed :: "nat UpdateInfo" where
  "ex_committed = \<lparr>vector_index = 0, row_offset = 1, transaction_id = 7, commit_id = Some 3,
                    old_value = Some 1, new_value = Some 100\<rparr>"


definition ex_state :: ColumnScanState where
  "ex_state = \<lparr>current = Some 0, row_index = 0, internal_index = 0, initialized = False,
               scan_state = None, previous_states = [], segment_checked = False,
               last_offset = 0, force_fetch_row = False\<rparr>"

definition ex_append_state :: ColumnAppendState where
  "ex_append_state = \<lparr>app_current = None, append_state = None\<rparr>"

definition ex_appendable :: "(nat, nat list) ColumnData" where
  "ex_appendable = ex_root\<lparr>allocation_size := 16, data := [CreateTransientSegment ex_env 0 16]\<rparr>"

definition ex_append_tail :: ColumnAppendState where
  "ex_append_tail = \<lparr>app_current = Some 0, append_state = Some 0\<rparr>"

definition ex_col_updated :: "(nat, nat list) ColumnData" where
  "ex_col_updated = ex_col\<lparr>updates := Some [ex_committed]\<rparr>"

definition ex_transaction :: TransactionData where
  "ex_transaction = \<lparr>tx_transaction_id = 1, tx_start_time = 10\<rparr>"

definition ex_long :: "(nat, nat list) ColumnData" where
  "ex_long = ex_root\<lparr>col_count := 2048, data := [ex_seg 0 2048]\<rparr>"

definition ex_checkpointer ::
  "(nat, nat list) ColumnData \<Rightarrow> (nat, nat list) ColumnSegment list
     \<Rightarrow> (nat, nat list) ColumnCheckpointState \<Rightarrow> error + (nat, nat list) ColumnCheckpointState" where
  "ex_checkpointer col nodes cs =
     Inr (cs\<lparr>new_tree := [ex_seg (col_start col) (col_count col)]\<rparr>)"

section \<open>The statistics guard\<close>

lemma AppendData_loop_error:
  assumes "AppendData_loop env col append_stats state vdata offset append_count = Some y"
  shows "\<forall>e. y = Inl e \<longrightarrow> e = NullDereference"
  by (rule AppendData_loop.raw_induct
        [where P = "\<lambda>env col append_stats state vdata offset append_count y.
                      \<forall>e. y = Inl e \<longrightarrow> e = NullDereference", OF _ assms])
     (auto simp: Let_def split: option.splits if_splits prod.splits)

lemma ColumnData_new_stats_presence:
  "stats_presence (ColumnData_new env bm ci sr ts p)"
  by (simp add: stats_presence_def ColumnData_new_def)

text \<open>
  Claim C8. On a column that has a parent, and so (as constructed) no statistics object,
  the statistics-owning \<^verbatim>\<open>Append\<close>, \<^verbatim>\<open>CheckZonemap\<close>, \<^verbatim>\<open>GetStatistics\<close>,
  \<^verbatim>\<open>MergeStatistics\<close> and \<^verbatim>\<open>MergeIntoStatistics\<close> each fail with their
  internal exception. On a column without a parent, which owns statistics, the last four
  return and \<^verbatim>\<open>Append\<close> does not end in that exception. The hypothesis is what
  the constructor establishes (\<open>ColumnData_new_stats_presence\<close>) and the operations
  keep (\<open>stats_presence_preserved\<close>).
\<close>

theorem stats_guard:
  assumes "stats_presence col"
  shows "(parent col \<noteq> None \<longrightarrow>
            Append env col state vector n
              = Some (Inl (InternalException
                  ''ColumnData::Append called on a column with a parent or without stats''))
          \<and> CheckZonemap col f
              = Inl (InternalException ''ColumnData::CheckZonemap called on a column without stats'')
          \<and> GetStatistics col
              = Inl (InternalException ''ColumnData::GetStatistics called on a column without stats'')
          \<and> MergeStatistics env col other
              = Inl (InternalException ''ColumnData::MergeStatistics called on a column without stats'')
          \<and> MergeIntoStatistics env col other
              = Inl (InternalException
                  ''ColumnData::MergeIntoStatistics called on a column without stats''))
       \<and> (parent col = None \<longrightarrow>
            Append env col state vector n
              \<noteq> Some (Inl (InternalException
                  ''ColumnData::Append called on a column with a parent or without stats''))
          \<and> (\<exists>b. CheckZonemap col f = Inr b)
          \<and> (\<exists>st. GetStatistics col = Inr st)
          \<and> (\<exists>col1. MergeStatistics env col other = Inr col1)
          \<and> (\<exists>st. MergeIntoStatistics env col other = Inr st))"
proof (intro conjI impI)
  assume p: "parent col = None"
  then obtain st where st: "col_stats col = Some st"
    using assms by (auto simp: stats_presence_def)
  show "Append env col state vector n
          \<noteq> Some (Inl (InternalException
                ''ColumnData::Append called on a column with a parent or without stats''))"
    using p st AppendData_loop_error
    by (fastforce simp: Append_def Append_stats_def AppendData_def Let_def
          split: option.splits sum.splits)
  show "\<exists>b. CheckZonemap col f = Inr b"
    using st by (auto simp: CheckZonemap_def Let_def)
  show "\<exists>st. GetStatistics col = Inr st"
    using st by (simp add: GetStatistics_def)
  show "\<exists>col1. MergeStatistics env col other = Inr col1"
    using st by (simp add: MergeStatistics_def)
  show "\<exists>st. MergeIntoStatistics env col other = Inr st"
    using st by (simp add: MergeIntoStatistics_def)
next
  assume p: "parent col \<noteq> None"
  then have st: "col_stats col = None"
    using assms by (simp add: stats_presence_def)
  show "Append env col state vector n
          = Some (Inl (InternalException
                ''ColumnData::Append called on a column with a parent or without stats''))"
    using st by (simp add: Append_def)
  show "CheckZonemap col f
          = Inl (InternalException ''ColumnData::CheckZonemap called on a column without stats'')"
    using st by (simp add: CheckZonemap_def)
  show "GetStatistics col
          = Inl (InternalException ''ColumnData::GetStatistics called on a column without stats'')"
    using st by (simp add: GetStatistics_def)
  show "MergeStatistics env col other
          = Inl (InternalException ''ColumnData::MergeStatistics called on a column without stats'')"
    using st by (simp add: MergeStatistics_def)
  show "MergeIntoStatistics env col other
          = Inl (InternalException
                ''ColumnData::MergeIntoStatistics called on a column without stats'')"
    using st by (simp add: MergeIntoStatistics_def)
qed

theorem stats_guard_witness:
  "stats_presence ex_child \<and> parent ex_child = Some 0
   \<and> Append ex_env ex_child ex_append_state (\<lambda>k. Some k) 3
       = Some (Inl (InternalException
            ''ColumnData::Append called on a column with a parent or without stats''))
   \<and> GetStatistics ex_child
       = Inl (InternalException ''ColumnData::GetStatistics called on a column without stats'')
   \<and> stats_presence ex_root \<and> parent ex_root = None
   \<and> (\<exists>st. GetStatistics ex_root = Inr st)
   \<and> Append ex_env ex_root ex_append_state (\<lambda>k. Some k) 3
       \<noteq> Some (Inl (InternalException
            ''ColumnData::Append called on a column with a parent or without stats''))"
proof -
  have c: "stats_presence ex_child" and r: "stats_presence ex_root"
    by (simp_all add: ex_child_def ex_root_def ColumnData_new_stats_presence)
  have pc: "parent ex_child = Some 0" and pr: "parent ex_root = None"
    by (simp_all add: ex_child_def ex_root_def ColumnData_new_def)
  show ?thesis
    using c r pc pr
      stats_guard [OF c, of ex_env ex_append_state "\<lambda>k. Some k" 3]
      stats_guard [OF r, of ex_env ex_append_state "\<lambda>k. Some k" 3]
    by simp
qed

section \<open>Re-basing a column: SetStart\<close>

lemma SetStart_segments_count:
  "map count (SetStart_segments st off segs) = map count segs"
  by (induction segs arbitrary: off) simp_all

lemma SetStart_segments_start:
  "map start (SetStart_segments st off segs)
     = map (\<lambda>i. st + off + sum_list (map count (take i segs))) [0..<length segs]"
proof (induction segs arbitrary: off)
  case Nil
  show ?case by simp
next
  case (Cons s segs)
  have "[0..<length (s # segs)] = 0 # map Suc [0..<length segs]"
    by (simp add: upt_conv_Cons map_Suc_upt del: upt_Suc)
  then show ?case
    by (simp add: Cons.IH o_def add.assoc del: upt_Suc)
qed

text \<open>
  Claim C9. After \<^verbatim>\<open>SetStart(new_start)\<close> the column starts at \<open>new_start\<close>,
  every segment has the count it had, and the segment at position \<open>i\<close> starts at
  \<open>new_start\<close> plus the counts of the segments before it (in \<^verbatim>\<open>idx_t\<close>
  arithmetic, as the source computes it).
\<close>

theorem SetStart_rebases:
  "col_start (SetStart col new_start) = new_start
   \<and> map count (data (SetStart col new_start)) = map count (data col)
   \<and> map start (data (SetStart col new_start))
       = map (\<lambda>i. new_start + sum_list (map count (take i (data col)))) [0..<length (data col)]"
  by (simp add: SetStart_def Let_def SetStart_segments_count SetStart_segments_start)

section \<open>Deserialization\<close>

lemma DeserializeColumn_loop_eq:
  "DeserializeColumn_loop env col dps t
     = (col\<lparr>col_count := col_count col + sum_list (map tuple_count dps),
            data := data col @ map (\<lambda>dp. CreatePersistentSegment (block_manager col)
                       (dp_block_id dp) (dp_offset dp) (row_start dp) (tuple_count dp)
                       (dp_compression_type dp) (statistics dp)) dps\<rparr>,
        foldl (Merge env) t (map statistics dps))"
  by (induction dps arbitrary: col t) (simp_all add: Let_def AppendSegment_def add.assoc)

text \<open>
  Claim C7. \<^verbatim>\<open>DeserializeColumn\<close> on the data pointers \<open>dps\<close> adds one segment
  per record at the tail of the tree, in record order, each persistent with the row
  start, tuple count and statistics of its record; the column count, reset to 0, becomes
  the sum of the tuple counts; the target statistics have each record's statistics merged
  in, from the first record to the last.
\<close>

theorem DeserializeColumn_segments:
  "DeserializeColumn env col dps target_stats
     = (col\<lparr>col_count := sum_list (map tuple_count dps),
            data := data col @ map (\<lambda>dp. CreatePersistentSegment (block_manager col)
                       (dp_block_id dp) (dp_offset dp) (row_start dp) (tuple_count dp)
                       (dp_compression_type dp) (statistics dp)) dps\<rparr>,
        foldl (Merge env) target_stats (map statistics dps))
   \<and> map segment_type (drop (length (data col))
         (data (fst (DeserializeColumn env col dps target_stats))))
       = replicate (length dps) PERSISTENT
   \<and> map start (drop (length (data col))
         (data (fst (DeserializeColumn env col dps target_stats))))
       = map row_start dps
   \<and> map count (drop (length (data col))
         (data (fst (DeserializeColumn env col dps target_stats))))
       = map tuple_count dps
   \<and> map stats (drop (length (data col))
         (data (fst (DeserializeColumn env col dps target_stats))))
       = map statistics dps"
  by (simp add: DeserializeColumn_def DeserializeColumn_loop_eq CreatePersistentSegment_def
        o_def map_replicate_const)

section \<open>Checkpoint\<close>

text \<open>
  Claim C3. On a column with segments, \<^verbatim>\<open>Checkpoint\<close> hands the moved-out list to
  the checkpointer; when that succeeds, the column's tree is the rebuilt list
  (\<^verbatim>\<open>Replace\<close>) and the update overlay is gone (\<^verbatim>\<open>ClearUpdates\<close>), all else
  as before. On a column without segments it returns the fresh, empty checkpoint state and
  leaves the column as it was, overlay included.
\<close>

theorem Checkpoint_replaces_and_clears:
  "(data col \<noteq> [] \<longrightarrow>
      Checkpoint env checkpointer col
        = (case checkpointer (col\<lparr>data := []\<rparr>) (data col)
                  \<lparr>new_tree = [], global_stats = CreateEmpty env\<rparr> of
             Inl e \<Rightarrow> Inl e
           | Inr cs \<Rightarrow> Inr (col\<lparr>data := new_tree cs, updates := None\<rparr>, cs))
      \<and> (\<forall>col1 cs. Checkpoint env checkpointer col = Inr (col1, cs) \<longrightarrow>
             data col1 = new_tree cs \<and> updates col1 = None \<and> \<not> HasUpdates col1))
   \<and> (data col = [] \<longrightarrow>
        Checkpoint env checkpointer col
          = Inr (col, \<lparr>new_tree = [], global_stats = CreateEmpty env\<rparr>))"
  by (auto simp: Checkpoint_def Let_def ClearUpdates_def HasUpdates_def split: sum.splits)

theorem Checkpoint_replaces_and_clears_witness:
  "data (ex_col\<lparr>updates := Some [ex_committed]\<rparr>) \<noteq> []
   \<and> Checkpoint ex_env ex_checkpointer (ex_col\<lparr>updates := Some [ex_committed]\<rparr>)
       = Inr (ex_col\<lparr>data := [ex_seg 0 5], updates := None\<rparr>,
              \<lparr>new_tree = [ex_seg 0 5], global_stats = []\<rparr>)
   \<and> data ex_root = []
   \<and> Checkpoint ex_env ex_checkpointer (ex_root\<lparr>updates := Some [ex_committed]\<rparr>)
       = Inr (ex_root\<lparr>updates := Some [ex_committed]\<rparr>, \<lparr>new_tree = [], global_stats = []\<rparr>)"
  using Checkpoint_replaces_and_clears
          [of "ex_col\<lparr>updates := Some [ex_committed]\<rparr>" ex_env ex_checkpointer]
        Checkpoint_replaces_and_clears
          [of "ex_root\<lparr>updates := Some [ex_committed]\<rparr>" ex_env ex_checkpointer]
  by (simp add: ex_col_def ex_root_def ColumnData_new_def ex_checkpointer_def ex_env_def)

section \<open>The committed view of the update overlay\<close>




section \<open>Reverting an append\<close>

lemma find_segment_Some:
  "find_segment segs r k = Some i \<Longrightarrow>
     k \<le> i \<and> i - k < length segs \<and> contains_row (segs ! (i - k)) r
     \<and> (\<forall>j<i - k. \<not> contains_row (segs ! j) r)"
proof (induction segs arbitrary: k)
  case Nil
  then show ?case by simp
next
  case (Cons s segs)
  show ?case
  proof (cases "contains_row s r")
    case True
    with Cons.prems show ?thesis by simp
  next
    case False
    with Cons.prems have f: "find_segment segs r (Suc k) = Some i" by simp
    from Cons.IH [OF f] have ih: "Suc k \<le> i" "i - Suc k < length segs"
      "contains_row (segs ! (i - Suc k)) r" "\<forall>j<i - Suc k. \<not> contains_row (segs ! j) r"
      by simp_all
    from ih(1) have eq: "i - k = Suc (i - Suc k)" by simp
    show ?thesis
      using ih False by (auto simp: eq less_Suc_eq_0_disj)
  qed
qed

lemma find_segment_None:
  "find_segment segs r k = None \<longleftrightarrow> (\<forall>s\<in>set segs. \<not> contains_row s r)"
  by (induction segs arbitrary: k) auto

text \<open>
  What \<^verbatim>\<open>RevertAppend(start_row)\<close> does on a column with segments, case by case.
  At the tail boundary it returns the column unchanged. When \<open>start_row\<close> lies in a
  segment, the first such segment \<open>i\<close> is located, the later segments are erased, the
  column count becomes \<open>start_row - col_start\<close> and segment \<open>i\<close> keeps the rows
  before \<open>start_row\<close> (a debug build first asserts that it is transient). When
  \<open>start_row\<close> is below the tail boundary and in no segment, the call fails with the
  internal exception of the segment lookup. Beyond the tail boundary the guard
  \<^verbatim>\<open>>=\<close> takes the early return, on which only the assertion checks that
  \<open>start_row\<close> is the boundary.
\<close>

lemma RevertAppend_cases:
  assumes "data col \<noteq> []"
  shows "(start_row = start (last (data col)) + count (last (data col)) \<longrightarrow>
            RevertAppend env col start_row = Inr col)
       \<and> (start (last (data col)) + count (last (data col)) < start_row \<longrightarrow>
            RevertAppend env col start_row = (if debug env then Inl AssertionFailure else Inr col))
       \<and> (start_row < start (last (data col)) + count (last (data col))
            \<and> (\<forall>s\<in>set (data col). \<not> contains_row s start_row) \<longrightarrow>
            RevertAppend env col start_row
              = Inl (InternalException ''Attempting to find a row outside of the segment tree''))
       \<and> (start_row < start (last (data col)) + count (last (data col))
            \<and> i < length (data col) \<and> contains_row (data col ! i) start_row
            \<and> (\<forall>j<i. \<not> contains_row (data col ! j) start_row) \<longrightarrow>
            RevertAppend env col start_row
              = (if debug env \<and> segment_type (data col ! i) \<noteq> TRANSIENT then Inl AssertionFailure
                 else Inr (col\<lparr>col_count := start_row - col_start col,
                               data := take i (data col)
                                 @ [(data col ! i)\<lparr>count := start_row - start (data col ! i)\<rparr>]\<rparr>)))"
proof -
  have last: "deref (data col) (GetLastSegment (data col)) = Inr (last (data col))"
    using assms by (simp add: deref_def GetLastSegment_def last_conv_nth)
  have c1: "RevertAppend env col start_row = Inr col"
    if "start_row = start (last (data col)) + count (last (data col))"
    using that last by (simp add: RevertAppend_def)
  have c2: "RevertAppend env col start_row = (if debug env then Inl AssertionFailure else Inr col)"
    if "start (last (data col)) + count (last (data col)) < start_row"
    using that last by (auto simp: RevertAppend_def)
  have c3: "RevertAppend env col start_row
              = Inl (InternalException ''Attempting to find a row outside of the segment tree'')"
    if "start_row < start (last (data col)) + count (last (data col))"
       "\<forall>s\<in>set (data col). \<not> contains_row s start_row"
  proof -
    from that(2) have "find_segment (data col) start_row 0 = None"
      by (simp add: find_segment_None)
    with that(1) last show ?thesis
      by (simp add: RevertAppend_def GetSegmentIndex_def not_le [symmetric])
  qed
  have c4: "RevertAppend env col start_row
              = (if debug env \<and> segment_type (data col ! i) \<noteq> TRANSIENT then Inl AssertionFailure
                 else Inr (col\<lparr>col_count := start_row - col_start col,
                               data := take i (data col)
                                 @ [(data col ! i)\<lparr>count := start_row - start (data col ! i)\<rparr>]\<rparr>))"
    if lt: "start_row < start (last (data col)) + count (last (data col))"
      and i: "i < length (data col)" and own: "contains_row (data col ! i) start_row"
      and first: "\<forall>j<i. \<not> contains_row (data col ! j) start_row"
  proof -
    have "find_segment (data col) start_row 0 \<noteq> None"
      using i own by (auto simp: find_segment_None)
    then obtain k where k: "find_segment (data col) start_row 0 = Some k" by auto
    from find_segment_Some [OF k] have "k < length (data col)"
      "contains_row (data col ! k) start_row" "\<forall>j<k. \<not> contains_row (data col ! j) start_row"
      by simp_all
    with i own first have "k = i"
      by (meson linorder_neqE_nat)
    with k have idx: "GetSegmentIndex (data col) start_row = Inr i"
      by (simp add: GetSegmentIndex_def)
    have len: "length (take i (data col)) = i"
      using i by simp
    have upd: "(take (Suc i) (data col))[i := x] = take i (data col) @ [x]" for x
      using i list_update_length [of "take i (data col)" "data col ! i" "[]" x]
      by (simp add: take_Suc_conv_app_nth len)
    show ?thesis
      using lt last idx
      by (simp add: RevertAppend_def not_le [symmetric] Let_def EraseSegments_def
            ColumnSegment_RevertAppend_def upd)
  qed
  show ?thesis
    using c1 c2 c3 c4 by blast
qed


text \<open>
  Claim C2. Row 7 of a column whose two segments hold rows 0 to 4 lies in no segment and
  is not the tail boundary, which is 5; the claim has \<^verbatim>\<open>RevertAppend\<close> fail
  there with an internal-consistency error. In a build without assertions the call
  returns, with no error and the column unchanged. The comment on the early return and
  the assertion next to it say that the start row is the boundary there; a build with
  assertions stops on that assertion.
\<close>

theorem RevertAppend_beyond_tail:
  "data ex_col = [ex_seg 0 4, ex_seg 4 1]
   \<and> \<not> contains_row (ex_seg 0 4) 7 \<and> \<not> contains_row (ex_seg 4 1) 7
   \<and> start (ex_seg 4 1) + count (ex_seg 4 1) = 5
   \<and> \<not> debug ex_env
   \<and> RevertAppend ex_env ex_col 7 = Inr ex_col
   \<and> RevertAppend (ex_env\<lparr>debug := True\<rparr>) ex_col 7 = Inl AssertionFailure"
  by (simp add: RevertAppend_def ex_col_def ex_seg_def ex_env_def contains_row_def
        deref_def GetLastSegment_def)

section \<open>Appending\<close>

lemma unat_min: "unat (min (a::idx_t) b) = min (unat a) (unat b)"
  by (simp add: min_def word_le_nat_alt)

lemma Append_copy:
  "snd (ColumnSegment_Append env seg vdata off n)
     = min n (max_tuple_count env (segment_size seg) - count seg)"
  by (simp add: ColumnSegment_Append_def Let_def)

lemma Append_fields:
  "start (fst (ColumnSegment_Append env seg vdata off n)) = start seg"
  "segment_type (fst (ColumnSegment_Append env seg vdata off n)) = segment_type seg"
  "segment_size (fst (ColumnSegment_Append env seg vdata off n)) = segment_size seg"
  "count (fst (ColumnSegment_Append env seg vdata off n))
     = count seg + snd (ColumnSegment_Append env seg vdata off n)"
  by (simp_all add: ColumnSegment_Append_def Let_def)

lemma Append_rows:
  assumes "count seg \<le> max_tuple_count env (segment_size seg)"
  shows "seg_rows (fst (ColumnSegment_Append env seg vdata off n))
           = seg_rows seg
             @ map (\<lambda>k. vdata (unat off + k)) [0..<unat (snd (ColumnSegment_Append env seg vdata off n))]"
    and "count (fst (ColumnSegment_Append env seg vdata off n))
           \<le> max_tuple_count env (segment_size seg)"
proof -
  let ?cap = "max_tuple_count env (segment_size seg)"
  let ?copy = "min n (?cap - count seg)"
  have room: "unat (?cap - count seg) = unat ?cap - unat (count seg)"
    using assms by (simp add: unat_sub)
  have le: "unat (count seg) \<le> unat ?cap"
    using assms by (simp add: word_le_nat_alt)
  have copy: "unat ?copy \<le> unat ?cap - unat (count seg)"
    by (simp add: unat_min room)
  have "unat (count seg) + unat ?copy \<le> unat ?cap"
    using copy le by simp
  moreover have "unat ?cap < 2 ^ 64"
    using unsigned_less [of ?cap, where 'a = nat] by simp
  ultimately have sum: "unat (count seg + ?copy) = unat (count seg) + unat ?copy"
    by (simp add: unat_add_lem [THEN iffD1])
  have shift: "[unat (count seg)..<unat (count seg) + unat ?copy]
                 = map (\<lambda>k. k + unat (count seg)) [0..<unat ?copy]"
    by (simp add: map_add_upt add.commute)
  show "seg_rows (fst (ColumnSegment_Append env seg vdata off n))
           = seg_rows seg
             @ map (\<lambda>k. vdata (unat off + k)) [0..<unat (snd (ColumnSegment_Append env seg vdata off n))]"
    unfolding seg_rows_def
    by (simp add: ColumnSegment_Append_def Let_def sum upt_add_eq_append shift o_def)
  show "count (fst (ColumnSegment_Append env seg vdata off n)) \<le> ?cap"
    using \<open>unat (count seg) + unat ?copy \<le> unat ?cap\<close>
    by (simp add: ColumnSegment_Append_def Let_def word_le_nat_alt sum)
qed


lemma AppendTransientSegment_eq:
  "\<exists>sz. (sz = BLOCK_SIZE env \<or> sz = STANDARD_VECTOR_SIZE * type_size col)
        \<and> AppendTransientSegment env col sr
            = col\<lparr>allocation_size := allocation_size col + sz,
                  data := data col @ [CreateTransientSegment env sr sz]\<rparr>"
  by (auto simp: AppendTransientSegment_def Let_def STANDARD_VECTOR_SIZE_def AppendSegment_def)

lemma AppendData_loop_step:
  fixes env :: "('v, 'st) Env" and seg :: "('v, 'st) ColumnSegment" and vdata :: "'v Vector"
    and off n :: idx_t
  assumes cur: "app_current state = Some (length pre)" and dat: "data col = pre @ [seg]"
  defines "seg1 \<equiv> fst (ColumnSegment_Append env seg vdata off n)"
    and "copy \<equiv> snd (ColumnSegment_Append env seg vdata off n)"
  shows "copy = n \<Longrightarrow>
           AppendData_loop env col append_stats state vdata off n
             = Some (Inr (col\<lparr>data := pre @ [seg1]\<rparr>, Merge env append_stats (stats seg1), state))"
    and "copy \<noteq> n \<Longrightarrow>
           \<exists>sz. (sz = BLOCK_SIZE env \<or> sz = STANDARD_VECTOR_SIZE * type_size col)
             \<and> AppendData_loop env col append_stats state vdata off n
                 = AppendData_loop env
                     (col\<lparr>allocation_size := allocation_size col + sz,
                          data := (pre @ [seg1])
                                  @ [CreateTransientSegment env (start seg1 + count seg1) sz]\<rparr>)
                     (Merge env append_stats (stats seg1))
                     (state\<lparr>app_current := Some (length (pre @ [seg1])),
                            append_state := Some (length (pre @ [seg1]))\<rparr>)
                     vdata (off + copy) (n - copy)"
proof -
  assume "copy = n"
  then show "AppendData_loop env col append_stats state vdata off n
             = Some (Inr (col\<lparr>data := pre @ [seg1]\<rparr>, Merge env append_stats (stats seg1), state))"
    using cur dat
    by (subst AppendData_loop.simps)
       (simp add: seg1_def copy_def Let_def case_prod_beta)
next
  assume ne: "copy \<noteq> n"
  obtain sz where sz: "sz = BLOCK_SIZE env \<or> sz = STANDARD_VECTOR_SIZE * type_size col"
    and ats: "AppendTransientSegment env (col\<lparr>data := pre @ [seg1]\<rparr>) (start seg1 + count seg1)
            = (col\<lparr>data := pre @ [seg1]\<rparr>)
                \<lparr>allocation_size := allocation_size (col\<lparr>data := pre @ [seg1]\<rparr>) + sz,
                 data := data (col\<lparr>data := pre @ [seg1]\<rparr>)
                         @ [CreateTransientSegment env (start seg1 + count seg1) sz]\<rparr>"
    using AppendTransientSegment_eq [of env "col\<lparr>data := pre @ [seg1]\<rparr>" "start seg1 + count seg1"]
    by auto
  have "AppendData_loop env col append_stats state vdata off n
                 = AppendData_loop env
                     (col\<lparr>allocation_size := allocation_size col + sz,
                          data := (pre @ [seg1])
                                  @ [CreateTransientSegment env (start seg1 + count seg1) sz]\<rparr>)
                     (Merge env append_stats (stats seg1))
                     (state\<lparr>app_current := Some (length (pre @ [seg1])),
                            append_state := Some (length (pre @ [seg1]))\<rparr>)
                     vdata (off + copy) (n - copy)"
    using cur dat ne
    by (subst AppendData_loop.simps)
       (simp add: case_prod_beta seg1_def [symmetric] copy_def [symmetric] Let_def ats
          GetLastSegment_def ColumnSegment_InitializeAppend_def)
  with sz show "\<exists>sz. (sz = BLOCK_SIZE env \<or> sz = STANDARD_VECTOR_SIZE * type_size col)
             \<and> AppendData_loop env col append_stats state vdata off n
                 = AppendData_loop env
                     (col\<lparr>allocation_size := allocation_size col + sz,
                          data := (pre @ [seg1])
                                  @ [CreateTransientSegment env (start seg1 + count seg1) sz]\<rparr>)
                     (Merge env append_stats (stats seg1))
                     (state\<lparr>app_current := Some (length (pre @ [seg1])),
                            append_state := Some (length (pre @ [seg1]))\<rparr>)
                     vdata (off + copy) (n - copy)"
    by blast
qed


lemma appended_done:
  fixes env :: "('v, 'st) Env" and seg :: "('v, 'st) ColumnSegment" and vdata :: "'v Vector"
    and off n :: idx_t
  assumes cur: "app_current state = Some (length pre)" and dat: "data col = pre @ [seg]"
    and room: "count seg \<le> max_tuple_count env (segment_size seg)"
    and fin: "snd (ColumnSegment_Append env seg vdata off n) = n"
  shows "appended env col pre seg append_stats vdata off n
           (AppendData_loop env col append_stats state vdata off n)"
proof -
  let ?seg1 = "fst (ColumnSegment_Append env seg vdata off n)"
  have le: "n \<le> max_tuple_count env (segment_size seg) - count seg"
    using fin by (simp add: Append_copy min_def split: if_splits)
  show ?thesis
    unfolding appended_def
    apply (rule exI [of _ "col\<lparr>data := pre @ [?seg1]\<rparr>"])
    apply (rule exI [of _ "Merge env append_stats (stats ?seg1)"])
    apply (rule exI [of _ state])
    apply (rule exI [of _ "[?seg1]"])
    using AppendData_loop_step(1) [OF cur dat fin, of append_stats] cur le
      Append_rows(1) [OF room, of vdata off n] fin
    by (simp add: Append_fields column_rows_def)
qed

lemma appended_more:
  fixes env :: "('v, 'st) Env" and seg seg2 :: "('v, 'st) ColumnSegment" and vdata :: "'v Vector"
    and off n :: idx_t
  defines "seg1 \<equiv> fst (ColumnSegment_Append env seg vdata off n)"
    and "copy \<equiv> snd (ColumnSegment_Append env seg vdata off n)"
  assumes room: "count seg \<le> max_tuple_count env (segment_size seg)"
    and more: "copy \<noteq> n"
    and bound: "unat off + unat n < 2 ^ 64"
    and fresh: "count seg2 = 0" "segment_type seg2 = TRANSIENT"
    and rest: "appended env col2 (pre @ [seg1]) seg2 (Merge env append_stats (stats seg1))
                 vdata (off + copy) (n - copy) res"
    and cc: "col_count col2 = col_count col"
  shows "appended env col pre seg append_stats vdata off n res"
proof -
  from rest obtain col' stats' state' segs' where
    res: "res = Some (Inr (col', stats', state'))"
    and d: "data col' = (pre @ [seg1]) @ segs'" and ne: "segs' \<noteq> []"
    and c: "col_count col' = col_count col2"
    and sm: "sum_list (map count segs') = count seg2 + (n - copy)"
    and rw: "column_rows segs'
               = seg_rows seg2 @ map (\<lambda>k. vdata (unat (off + copy) + k)) [0..<unat (n - copy)]"
    and ty: "list_all (\<lambda>s. segment_type s = TRANSIENT) (tl segs')"
    and hd: "segment_type (hd segs') = segment_type seg2"
    and st: "stats' = foldl (Merge env) (Merge env append_stats (stats seg1)) (map stats segs')"
    and cur: "app_current state' = Some (length (pre @ [seg1]) + length segs' - 1)"
    unfolding appended_def by blast
  have copy_le: "copy \<le> n"
    by (simp add: copy_def Append_copy)
  then have ucopy: "unat copy \<le> unat n"
    by (simp add: word_le_nat_alt)
  have usub: "unat (n - copy) = unat n - unat copy"
    using copy_le by (simp add: unat_sub)
  have uoff: "unat (off + copy) = unat off + unat copy"
    using bound ucopy by (simp add: unat_add_lem [THEN iffD1])
  have copy_eq: "copy = max_tuple_count env (segment_size seg) - count seg"
    using more by (simp add: copy_def Append_copy min_def split: if_splits)
  have not_le: "\<not> n \<le> max_tuple_count env (segment_size seg) - count seg"
    using more by (simp add: copy_def Append_copy min_def split: if_splits)
  have split_upt: "[0..<unat n] = [0..<unat copy] @ map (\<lambda>k. k + unat copy) [0..<unat n - unat copy]"
    using ucopy upt_add_eq_append [of 0 "unat copy" "unat n - unat copy"]
    by (simp add: map_add_upt)
  have rows2: "seg_rows seg2 = []"
    using fresh by (simp add: seg_rows_def)
  have all: "list_all (\<lambda>s. segment_type s = TRANSIENT) segs'"
    using ne ty hd fresh by (cases segs') simp_all
  show ?thesis
    unfolding appended_def
    apply (rule exI [of _ col'])
    apply (rule exI [of _ stats'])
    apply (rule exI [of _ state'])
    apply (rule exI [of _ "seg1 # segs'"])
    using res d ne c cc sm st cur all not_le fresh
      Append_rows(1) [OF room, of vdata off n]
    by (simp add: column_rows_def [symmetric] rw rows2 usub uoff split_upt o_def add.assoc
          seg1_def [symmetric] copy_def [symmetric] Append_fields [of env seg vdata off n, folded seg1_def copy_def]
          column_rows_def [of "seg1 # segs'"] add.commute [of _ "unat copy"]
          add.left_commute [of "unat copy"])
qed


lemma AppendData_loop_room:
  fixes env :: "('v, 'st) Env" and seg :: "('v, 'st) ColumnSegment" and vdata :: "'v Vector"
    and off n :: idx_t
  assumes "app_current state = Some (length pre)" and "data col = pre @ [seg]"
    and "0 < max_tuple_count env (BLOCK_SIZE env)"
    and "0 < max_tuple_count env (STANDARD_VECTOR_SIZE * type_size col)"
    and "count seg \<le> max_tuple_count env (segment_size seg)"
    and "unat off + unat n < 2 ^ 64"
    and "count seg < max_tuple_count env (segment_size seg) \<or> n = 0"
  shows "appended env col pre seg append_stats vdata off n
           (AppendData_loop env col append_stats state vdata off n)"
  using assms
proof (induction "unat n" arbitrary: n col pre seg append_stats state off rule: less_induct)
  case less
  let ?seg1 = "fst (ColumnSegment_Append env seg vdata off n)"
  let ?copy = "snd (ColumnSegment_Append env seg vdata off n)"
  show ?case
  proof (cases "?copy = n")
    case True
    show ?thesis
      by (rule appended_done [OF less.prems(1,2,5) True])
  next
    case False
    from AppendData_loop_step(2) [OF less.prems(1,2) False, of append_stats]
    obtain sz where sz: "sz = BLOCK_SIZE env \<or> sz = STANDARD_VECTOR_SIZE * type_size col"
      and eq: "AppendData_loop env col append_stats state vdata off n
                 = AppendData_loop env
                     (col\<lparr>allocation_size := allocation_size col + sz,
                          data := (pre @ [?seg1])
                                  @ [CreateTransientSegment env (start ?seg1 + count ?seg1) sz]\<rparr>)
                     (Merge env append_stats (stats ?seg1))
                     (state\<lparr>app_current := Some (length (pre @ [?seg1])),
                            append_state := Some (length (pre @ [?seg1]))\<rparr>)
                     vdata (off + ?copy) (n - ?copy)"
      by blast
    let ?seg2 = "CreateTransientSegment env (start ?seg1 + count ?seg1) sz"
    let ?col2 = "col\<lparr>allocation_size := allocation_size col + sz,
                     data := (pre @ [?seg1]) @ [?seg2]\<rparr>"
    let ?state2 = "state\<lparr>app_current := Some (length (pre @ [?seg1])),
                         append_state := Some (length (pre @ [?seg1]))\<rparr>"
    have copy_le: "?copy \<le> n"
      by (simp add: Append_copy)
    have n0: "n \<noteq> 0"
      using False by (auto simp: Append_copy)
    have copy_eq: "?copy = max_tuple_count env (segment_size seg) - count seg"
      using False by (simp add: Append_copy min_def split: if_splits)
    have copy_pos: "0 < ?copy"
      using less.prems(7) n0 unfolding copy_eq
      by (simp add: word_less_nat_alt unat_sub less.prems(5))
    have smaller: "unat (n - ?copy) < unat n"
      using copy_le copy_pos by (simp add: unat_sub word_less_nat_alt word_le_nat_alt)
    have ucopy: "unat ?copy \<le> unat n"
      using copy_le by (simp add: word_le_nat_alt)
    have uoff: "unat (off + ?copy) = unat off + unat ?copy"
      using less.prems(6) ucopy by (simp add: unat_add_lem [THEN iffD1])
    have bound2: "unat (off + ?copy) + unat (n - ?copy) < 2 ^ 64"
      using less.prems(6) ucopy copy_le by (simp add: uoff unat_sub)
    have cap2: "0 < max_tuple_count env (segment_size ?seg2)"
      using sz less.prems(3,4) by (auto simp: CreateTransientSegment_def)
    have rest: "appended env ?col2 (pre @ [?seg1]) ?seg2 (Merge env append_stats (stats ?seg1))
                  vdata (off + ?copy) (n - ?copy)
                  (AppendData_loop env ?col2 (Merge env append_stats (stats ?seg1)) ?state2 vdata
                     (off + ?copy) (n - ?copy))"
    proof (rule less.hyps [OF smaller])
      show "app_current ?state2 = Some (length (pre @ [?seg1]))" by simp
      show "data ?col2 = (pre @ [?seg1]) @ [?seg2]" by simp
      show "0 < max_tuple_count env (BLOCK_SIZE env)" by (rule less.prems(3))
      show "0 < max_tuple_count env (STANDARD_VECTOR_SIZE * type_size ?col2)"
        using less.prems(4) by simp
      show "count ?seg2 \<le> max_tuple_count env (segment_size ?seg2)"
        by (simp add: CreateTransientSegment_def)
      show "unat (off + ?copy) + unat (n - ?copy) < 2 ^ 64" by (rule bound2)
      show "count ?seg2 < max_tuple_count env (segment_size ?seg2) \<or> n - ?copy = 0"
        using cap2 by (simp add: CreateTransientSegment_def)
    qed
    show ?thesis
      unfolding eq
      by (rule appended_more [OF less.prems(5) False less.prems(6) _ _ rest])
         (simp_all add: CreateTransientSegment_def)
  qed
qed

lemma AppendData_loop_any:
  fixes env :: "('v, 'st) Env" and seg :: "('v, 'st) ColumnSegment" and vdata :: "'v Vector"
    and off n :: idx_t
  assumes cur: "app_current state = Some (length pre)" and dat: "data col = pre @ [seg]"
    and p1: "0 < max_tuple_count env (BLOCK_SIZE env)"
    and p2: "0 < max_tuple_count env (STANDARD_VECTOR_SIZE * type_size col)"
    and room: "count seg \<le> max_tuple_count env (segment_size seg)"
    and bound: "unat off + unat n < 2 ^ 64"
  shows "appended env col pre seg append_stats vdata off n
           (AppendData_loop env col append_stats state vdata off n)"
proof -
  let ?seg1 = "fst (ColumnSegment_Append env seg vdata off n)"
  let ?copy = "snd (ColumnSegment_Append env seg vdata off n)"
  show ?thesis
  proof (cases "?copy = n")
    case True
    show ?thesis
      by (rule appended_done [OF cur dat room True])
  next
    case False
    from AppendData_loop_step(2) [OF cur dat False, of append_stats]
    obtain sz where sz: "sz = BLOCK_SIZE env \<or> sz = STANDARD_VECTOR_SIZE * type_size col"
      and eq: "AppendData_loop env col append_stats state vdata off n
                 = AppendData_loop env
                     (col\<lparr>allocation_size := allocation_size col + sz,
                          data := (pre @ [?seg1])
                                  @ [CreateTransientSegment env (start ?seg1 + count ?seg1) sz]\<rparr>)
                     (Merge env append_stats (stats ?seg1))
                     (state\<lparr>app_current := Some (length (pre @ [?seg1])),
                            append_state := Some (length (pre @ [?seg1]))\<rparr>)
                     vdata (off + ?copy) (n - ?copy)"
      by blast
    let ?seg2 = "CreateTransientSegment env (start ?seg1 + count ?seg1) sz"
    let ?col2 = "col\<lparr>allocation_size := allocation_size col + sz,
                     data := (pre @ [?seg1]) @ [?seg2]\<rparr>"
    let ?state2 = "state\<lparr>app_current := Some (length (pre @ [?seg1])),
                         append_state := Some (length (pre @ [?seg1]))\<rparr>"
    have copy_le: "?copy \<le> n"
      by (simp add: Append_copy)
    have ucopy: "unat ?copy \<le> unat n"
      using copy_le by (simp add: word_le_nat_alt)
    have uoff: "unat (off + ?copy) = unat off + unat ?copy"
      using bound ucopy by (simp add: unat_add_lem [THEN iffD1])
    have bound2: "unat (off + ?copy) + unat (n - ?copy) < 2 ^ 64"
      using bound ucopy copy_le by (simp add: uoff unat_sub)
    have cap2: "0 < max_tuple_count env (segment_size ?seg2)"
      using sz p1 p2 by (auto simp: CreateTransientSegment_def)
    have rest: "appended env ?col2 (pre @ [?seg1]) ?seg2 (Merge env append_stats (stats ?seg1))
                  vdata (off + ?copy) (n - ?copy)
                  (AppendData_loop env ?col2 (Merge env append_stats (stats ?seg1)) ?state2 vdata
                     (off + ?copy) (n - ?copy))"
    proof (rule AppendData_loop_room)
      show "app_current ?state2 = Some (length (pre @ [?seg1]))" by simp
      show "data ?col2 = (pre @ [?seg1]) @ [?seg2]" by simp
      show "0 < max_tuple_count env (BLOCK_SIZE env)" by (rule p1)
      show "0 < max_tuple_count env (STANDARD_VECTOR_SIZE * type_size ?col2)"
        using p2 by simp
      show "count ?seg2 \<le> max_tuple_count env (segment_size ?seg2)"
        by (simp add: CreateTransientSegment_def)
      show "unat (off + ?copy) + unat (n - ?copy) < 2 ^ 64" by (rule bound2)
      show "count ?seg2 < max_tuple_count env (segment_size ?seg2) \<or> n - ?copy = 0"
        using cap2 by (simp add: CreateTransientSegment_def)
    qed
    show ?thesis
      unfolding eq
      by (rule appended_more [OF room False bound _ _ rest])
         (simp_all add: CreateTransientSegment_def)
  qed
qed


text \<open>
  Claim C1. Let the append cursor be at the tail segment (where \<^verbatim>\<open>InitializeAppend\<close>
  puts it, \<open>InitializeAppend_tail\<close>), let the tail hold no more rows than fit it,
  and let a new segment have room for at least one row (otherwise the source's
  \<^verbatim>\<open>while (true)\<close> does not end). Then \<^verbatim>\<open>AppendData\<close> of \<open>n\<close> rows
  returns. It runs the loop on the column whose count is already \<open>col_count + n\<close>, and
  that is the count it leaves. The tree keeps its earlier segments; the tail segment and
  the transient segments added after it absorb the \<open>n\<close> cells of the input in order,
  a segment being added exactly when the tail's room is less than \<open>n\<close>; the statistics
  of the tail and of each added segment are merged into the caller's aggregate, in tree
  order; and the counts of the segments sum to the column count again.
\<close>

theorem AppendData_absorbs:
  fixes env :: "('v, 'st) Env" and col :: "('v, 'st) ColumnData" and vdata :: "'v Vector"
    and n :: idx_t
  assumes tail: "data col \<noteq> []"
    and cur: "app_current state = Some (length (data col) - 1)"
    and p1: "0 < max_tuple_count env (BLOCK_SIZE env)"
    and p2: "0 < max_tuple_count env (STANDARD_VECTOR_SIZE * type_size col)"
    and room: "count (last (data col)) \<le> max_tuple_count env (segment_size (last (data col)))"
    and inv: "sum_list (map count (data col)) = col_count col"
  shows "\<exists>col' stats' state'.
           AppendData env col append_stats state vdata n = Some (Inr (col', stats', state'))
         \<and> AppendData env col append_stats state vdata n
             = AppendData_loop env (col\<lparr>col_count := col_count col + n\<rparr>) append_stats state
                 vdata 0 n
         \<and> col_count col' = col_count col + n
         \<and> sum_list (map count (data col')) = col_count col'
         \<and> column_rows (data col') = column_rows (data col) @ map vdata [0..<unat n]
         \<and> take (length (data col) - 1) (data col') = butlast (data col)
         \<and> length (data col) \<le> length (data col')
         \<and> start (data col' ! (length (data col) - 1)) = start (last (data col))
         \<and> list_all (\<lambda>s. segment_type s = TRANSIENT) (drop (length (data col)) (data col'))
         \<and> stats' = foldl (Merge env) append_stats
                      (map stats (drop (length (data col) - 1) (data col')))
         \<and> (length (data col') = length (data col))
             = (n \<le> max_tuple_count env (segment_size (last (data col))) - count (last (data col)))
         \<and> app_current state' = Some (length (data col') - 1)"
proof -
  let ?pre = "butlast (data col)" and ?seg = "last (data col)"
  let ?col1 = "col\<lparr>col_count := col_count col + n\<rparr>"
  have dat: "data ?col1 = ?pre @ [?seg]"
    using tail by simp
  have cur1: "app_current state = Some (length ?pre)"
    using cur by simp
  have unf: "AppendData env col append_stats state vdata n
               = AppendData_loop env ?col1 append_stats state vdata 0 n"
    by (simp add: AppendData_def Let_def)
  have bound: "unat (0::idx_t) + unat n < 2 ^ 64"
    using unsigned_less [of n, where 'a = nat] by simp
  have "appended env ?col1 ?pre ?seg append_stats vdata 0 n
          (AppendData_loop env ?col1 append_stats state vdata 0 n)"
    using p2 by (intro AppendData_loop_any [OF cur1 dat p1 _ room bound]) simp
  then obtain col' stats' state' segs' where
    res: "AppendData_loop env ?col1 append_stats state vdata 0 n = Some (Inr (col', stats', state'))"
    and d: "data col' = ?pre @ segs'" and ne: "segs' \<noteq> []"
    and c: "col_count col' = col_count ?col1"
    and sm: "sum_list (map count segs') = count ?seg + n"
    and rw: "column_rows segs' = seg_rows ?seg @ map (\<lambda>k. vdata (unat (0::idx_t) + k)) [0..<unat n]"
    and ty: "list_all (\<lambda>s. segment_type s = TRANSIENT) (tl segs')"
    and hd: "start (hd segs') = start ?seg"
    and st: "stats' = foldl (Merge env) append_stats (map stats segs')"
    and cu: "app_current state' = Some (length ?pre + length segs' - 1)"
    and ln: "(length segs' = 1) = (n \<le> max_tuple_count env (segment_size ?seg) - count ?seg)"
    unfolding appended_def by blast
  have split: "data col = ?pre @ [?seg]"
    using tail by simp
  obtain x xs where sx: "segs' = x # xs"
    using ne by (cases segs') auto
  have l1: "0 < length (data col)"
    using tail by simp
  have len': "length (data col') = (length (data col) - 1) + Suc (length xs)"
    using d sx by simp
  have sum0: "sum_list (map count (data col)) = sum_list (map count ?pre) + count ?seg"
    by (subst split) simp
  have rows0: "column_rows (data col) = column_rows ?pre @ seg_rows ?seg"
    by (subst split) (simp add: column_rows_def)
  have g1: "col_count col' = col_count col + n"
    using c by simp
  have g2: "sum_list (map count (data col')) = col_count col'"
    using d sm sum0 inv g1 by (simp add: add.assoc)
  have g3: "column_rows (data col') = column_rows (data col) @ map vdata [0..<unat n]"
    using d rw rows0 by (simp add: column_rows_def)
  have g4: "take (length (data col) - 1) (data col') = ?pre"
    using d by simp
  have g5: "length (data col) \<le> length (data col')"
    using l1 len' by linarith
  have g6: "start (data col' ! (length (data col) - 1)) = start ?seg"
    using d sx hd by (simp add: nth_append)
  have one: "length (data col) - (length (data col) - Suc 0) = Suc 0"
    using l1 by linarith
  have dr: "drop (length (data col)) (data col') = xs"
    using d sx by (simp add: one)
  have g7: "list_all (\<lambda>s. segment_type s = TRANSIENT) (drop (length (data col)) (data col'))"
    using ty sx unfolding dr by simp
  have g8: "stats' = foldl (Merge env) append_stats
                      (map stats (drop (length (data col) - 1) (data col')))"
    using d st by simp
  have g9: "(length (data col') = length (data col))
             = (n \<le> max_tuple_count env (segment_size ?seg) - count ?seg)"
  proof -
    have a: "(length (data col') = length (data col)) = (length xs = 0)"
      using l1 len' by linarith
    have b: "(length segs' = 1) = (length xs = 0)"
      using sx by simp
    show ?thesis
      using ln unfolding a b by simp
  qed
  have g10: "app_current state' = Some (length (data col') - 1)"
    using cu sx len' by simp
  show ?thesis
    using res unf g1 g2 g3 g4 g5 g6 g7 g8 g9 g10 by simp
qed


lemma InitializeAppend_tail:
  "\<exists>col1 state1.
     InitializeAppend env col state = Inr (col1, state1)
     \<and> data col1 \<noteq> [] \<and> app_current state1 = Some (length (data col1) - 1)
     \<and> col_count col1 = col_count col \<and> type_size col1 = type_size col
     \<and> sum_list (map count (data col1)) = sum_list (map count (data col))
     \<and> column_rows (data col1) = column_rows (data col)
     \<and> segment_type (last (data col1)) = TRANSIENT"
proof -
  have ty: "t \<noteq> PERSISTENT \<Longrightarrow> t = TRANSIENT" for t
    by (cases t) simp_all
  show ?thesis
    by (auto simp: InitializeAppend_def AppendTransientSegment_def AppendSegment_def Let_def
          deref_def GetLastSegment_def CreateTransientSegment_def column_rows_def seg_rows_def
          ColumnSegment_InitializeAppend_def last_conv_nth ty)
qed

theorem AppendData_absorbs_witness:
  "InitializeAppend ex_env ex_root ex_append_state = Inr (ex_appendable, ex_append_tail)
   \<and> data ex_appendable \<noteq> []
   \<and> app_current ex_append_tail = Some (length (data ex_appendable) - 1)
   \<and> 0 < max_tuple_count ex_env (BLOCK_SIZE ex_env)
   \<and> 0 < max_tuple_count ex_env (STANDARD_VECTOR_SIZE * type_size ex_appendable)
   \<and> count (last (data ex_appendable))
       \<le> max_tuple_count ex_env (segment_size (last (data ex_appendable)))
   \<and> sum_list (map count (data ex_appendable)) = col_count ex_appendable
   \<and> (case AppendData ex_env ex_appendable [] ex_append_tail (\<lambda>k. Some (10 * k)) 10 of
         Some (Inr (col1, stats1, state1)) \<Rightarrow>
           col_count col1 = 10 \<and> map count (data col1) = [4, 4, 2]
           \<and> map start (data col1) = [0, 4, 8]
           \<and> map segment_type (data col1) = [TRANSIENT, TRANSIENT, TRANSIENT]
           \<and> column_rows (data col1) = map (\<lambda>k. Some (10 * k)) [0..<10]
           \<and> stats1 = [0, 10, 20, 30, 40, 50, 60, 70, 80, 90]
           \<and> app_current state1 = Some 2
       | _ \<Rightarrow> False)
   \<and> (\<exists>col1 stats1 state1.
         AppendData ex_env ex_appendable [] ex_append_tail (\<lambda>k. Some (10 * k)) 10
           = Some (Inr (col1, stats1, state1))
         \<and> sum_list (map count (data col1)) = col_count col1)"
proof -
  have i: "InitializeAppend ex_env ex_root ex_append_state = Inr (ex_appendable, ex_append_tail)"
    by (simp add: InitializeAppend_def ex_root_def ex_append_state_def ex_appendable_def
          ex_append_tail_def ColumnData_new_def AppendTransientSegment_def AppendSegment_def
          Let_def deref_def GetLastSegment_def CreateTransientSegment_def ex_env_def
          ColumnSegment_InitializeAppend_def)
  have h: "data ex_appendable \<noteq> []"
    "app_current ex_append_tail = Some (length (data ex_appendable) - 1)"
    "0 < max_tuple_count ex_env (BLOCK_SIZE ex_env)"
    "0 < max_tuple_count ex_env (STANDARD_VECTOR_SIZE * type_size ex_appendable)"
    "count (last (data ex_appendable))
       \<le> max_tuple_count ex_env (segment_size (last (data ex_appendable)))"
    "sum_list (map count (data ex_appendable)) = col_count ex_appendable"
    by (simp_all add: ex_appendable_def ex_append_tail_def ex_env_def ex_root_def
          ColumnData_new_def CreateTransientSegment_def STANDARD_VECTOR_SIZE_def)
  have e: "(case AppendData ex_env ex_appendable [] ex_append_tail (\<lambda>k. Some (10 * k)) 10 of
         Some (Inr (col1, stats1, state1)) \<Rightarrow>
           col_count col1 = 10 \<and> map count (data col1) = [4, 4, 2]
           \<and> map start (data col1) = [0, 4, 8]
           \<and> map segment_type (data col1) = [TRANSIENT, TRANSIENT, TRANSIENT]
           \<and> column_rows (data col1) = map (\<lambda>k. Some (10 * k)) [0..<10]
           \<and> stats1 = [0, 10, 20, 30, 40, 50, 60, 70, 80, 90]
           \<and> app_current state1 = Some 2
       | _ \<Rightarrow> False)"
    by code_simp
  from AppendData_absorbs [OF h, of "[]" "\<lambda>k. Some (10 * k)" 10]
  have t: "\<exists>col1 stats1 state1.
         AppendData ex_env ex_appendable [] ex_append_tail (\<lambda>k. Some (10 * k)) 10
           = Some (Inr (col1, stats1, state1))
         \<and> sum_list (map count (data col1)) = col_count col1"
    by blast
  show ?thesis
    using i h e t by simp
qed

section \<open>Scanning\<close>

lemma unat_lt64: "unat (w::idx_t) < 2 ^ 64"
  using unsigned_less [of w, where 'a = nat] by simp

lemma FetchRows_eq_Scan:
  assumes ro: "unat ro + unat sc < 2 ^ 64"
    and rw: "unat (row_index state - start seg) + unat sc < 2 ^ 64"
  shows "FetchRows seg state sc res ro = ColumnSegment_Scan seg state sc res ro b"
proof -
  have pre: "m \<le> unat sc \<Longrightarrow>
      fold (\<lambda>i r. ColumnSegment_FetchRow seg (row_index state + of_nat i) r (ro + of_nat i))
        [0..<m] res
      = (\<lambda>k. if unat ro \<le> k \<and> k < unat ro + m
              then rows seg (unat (row_index state - start seg) + (k - unat ro)) else res k)"
    for m
  proof (induction m)
    case 0
    show ?case by (auto simp: fun_eq_iff)
  next
    case (Suc m)
    then have m: "m < unat sc" by simp
    have um: "unat (of_nat m :: idx_t) = m"
      using m unat_lt64 [of sc] by (simp add: unat_of_nat)
    have a: "unat (ro + of_nat m) = unat ro + m"
      using ro m um unat_add_lem [of ro "of_nat m"] by simp
    have w: "row_index state + of_nat m - start seg = (row_index state - start seg) + of_nat m"
      by simp
    have "unat ((row_index state - start seg) + of_nat m)
            = unat (row_index state - start seg) + m"
      using rw m um unat_add_lem [of "row_index state - start seg" "of_nat m"] by simp
    then have b: "unat (row_index state + of_nat m - start seg)
                    = unat (row_index state - start seg) + m"
      by (simp only: w)
    let ?F = "\<lambda>i r. ColumnSegment_FetchRow seg (row_index state + of_nat i) r (ro + of_nat i)"
    from Suc have ih: "fold ?F [0..<m] res
      = (\<lambda>k. if unat ro \<le> k \<and> k < unat ro + m
              then rows seg (unat (row_index state - start seg) + (k - unat ro)) else res k)"
      by simp
    have "fold ?F [0..<Suc m] res = ?F m (fold ?F [0..<m] res)"
      by simp
    also have "\<dots> = ?F m (\<lambda>k. if unat ro \<le> k \<and> k < unat ro + m
              then rows seg (unat (row_index state - start seg) + (k - unat ro)) else res k)"
      by (simp only: ih)
    also have "\<dots> = (\<lambda>k. if unat ro \<le> k \<and> k < unat ro + Suc m
              then rows seg (unat (row_index state - start seg) + (k - unat ro)) else res k)"
      by (auto simp: ColumnSegment_FetchRow_def a b fun_eq_iff)
    finally show ?case .
  qed
  show ?thesis
    unfolding FetchRows_def ColumnSegment_Scan_def
    by (rule pre) simp
qed

lemma ScanVector_loop_step:
  fixes env :: "('v, 'st) Env" and segs :: "('v, 'st) ColumnSegment list" and r R :: idx_t
  assumes cur: "current state = Some i" and i: "i < length segs"
    and lo: "start (segs ! i) \<le> row_index state"
    and hi: "unat (row_index state) \<le> unat (start (segs ! i)) + unat (count (segs ! i))"
    and nov: "unat (start (segs ! i)) + unat (count (segs ! i)) < 2 ^ 64"
    and rR: "r \<le> R" and pos: "0 < r"
  shows "r \<le> start (segs ! i) + count (segs ! i) - row_index state \<Longrightarrow>
           ScanVector_loop env segs hu R state res r
             = Inr (state\<lparr>row_index := row_index state + r\<rparr>,
                    ColumnSegment_Scan (segs ! i) state r res (R - r) False, 0)"
    and "start (segs ! i) + count (segs ! i) - row_index state < r \<Longrightarrow> length segs \<le> Suc i \<Longrightarrow>
           ScanVector_loop env segs hu R state res r
             = Inr (state\<lparr>row_index := start (segs ! i) + count (segs ! i)\<rparr>,
                    ColumnSegment_Scan (segs ! i) state
                      (start (segs ! i) + count (segs ! i) - row_index state) res (R - r) False,
                    r - (start (segs ! i) + count (segs ! i) - row_index state))"
    and "start (segs ! i) + count (segs ! i) - row_index state < r \<Longrightarrow> Suc i < length segs \<Longrightarrow>
         start (segs ! Suc i) = start (segs ! i) + count (segs ! i) \<Longrightarrow>
         unat (start (segs ! Suc i)) + unat (count (segs ! Suc i)) < 2 ^ 64 \<Longrightarrow>
           ScanVector_loop env segs hu R state res r
             = ScanVector_loop env segs hu R
                 (state\<lparr>row_index := start (segs ! i) + count (segs ! i),
                        previous_states := previous_states state @ [scan_state state],
                        current := Some (Suc i), scan_state := Some (Suc i),
                        segment_checked := False\<rparr>)
                 (ColumnSegment_Scan (segs ! i) state
                      (start (segs ! i) + count (segs ! i) - row_index state) res (R - r) False)
                 (r - (start (segs ! i) + count (segs ! i) - row_index state))"
proof -
  let ?seg = "segs ! i"
  let ?room = "start ?seg + count ?seg - row_index state"
  let ?sc = "min r ?room"
  have end_eq: "unat (start ?seg + count ?seg) = unat (start ?seg) + unat (count ?seg)"
    using nov by (simp add: unat_add_lem [THEN iffD1])
  have inr: "row_index state \<le> start ?seg + count ?seg"
    using hi by (simp add: word_le_nat_alt end_eq)
  have d: "deref segs (current state) = Inr ?seg"
    using cur i by (simp add: deref_def)
  have uroom: "unat ?room = unat (start ?seg) + unat (count ?seg) - unat (row_index state)"
    using inr by (simp add: unat_sub end_eq)
  have ud: "unat (row_index state - start ?seg) = unat (row_index state) - unat (start ?seg)"
    using lo by (simp add: unat_sub)
  have sc_le: "unat ?sc \<le> unat r" "unat ?sc \<le> unat ?room"
    by (simp_all add: min_def word_le_nat_alt)
  have uRr: "unat (R - r) = unat R - unat r"
    using rR by (simp add: unat_sub)
  have b1: "unat (R - r) + unat ?sc < 2 ^ 64"
    using sc_le(1) rR uRr unat_lt64 [of R] by (simp add: word_le_nat_alt)
  have b2: "unat (row_index state - start ?seg) + unat ?sc < 2 ^ 64"
    using sc_le(2) uroom ud hi lo nov by (simp add: word_le_nat_alt)
  have G1: "(if 0 < sc then
              (if force_fetch_row state then ColumnSegment_Scan ?seg state sc res (R - r) False
               else ColumnSegment_Scan ?seg state sc res (R - r) (\<not> hu \<and> sc = R))
            else res)
           = ColumnSegment_Scan ?seg state sc res (R - r) False" for sc :: idx_t
    by (cases "sc = 0") (auto simp: word_gt_0 ColumnSegment_Scan_def fun_eq_iff)
  have F1: "(if 0 < ?sc then
              (if force_fetch_row state then FetchRows ?seg state ?sc res (R - r)
               else ColumnSegment_Scan ?seg state ?sc res (R - r) (\<not> hu \<and> ?sc = R))
            else res)
           = ColumnSegment_Scan ?seg state ?sc res (R - r) False"
    unfolding FetchRows_eq_Scan [OF b1 b2, of res False] by (rule G1)
  have G2: "(if 0 < sc then state\<lparr>row_index := row_index state + sc\<rparr> else state)
              = state\<lparr>row_index := row_index state + sc\<rparr>" for sc :: idx_t
    by (cases "sc = 0") (simp_all add: word_gt_0)
  have F2: "(if 0 < ?sc then state\<lparr>row_index := row_index state + ?sc\<rparr> else state)
              = state\<lparr>row_index := row_index state + ?sc\<rparr>"
    by (rule G2)
  have G3: "(if 0 < sc then r - sc else r) = r - sc" for sc :: idx_t
    by (cases "sc = 0") (simp_all add: word_gt_0)
  have F3: "(if 0 < ?sc then r - ?sc else r) = r - ?sc"
    by (rule G3)
  have unf: "ScanVector_loop env segs hu R state res r
      = (if 0 < r - ?sc then
            (case GetNextSegment segs (current state) of
               None \<Rightarrow> Inr (state\<lparr>row_index := row_index state + ?sc\<rparr>,
                            ColumnSegment_Scan ?seg state ?sc res (R - r) False, r - ?sc)
             | Some n \<Rightarrow>
                if debug env \<and> \<not> (start (segs ! n) \<le> row_index state + ?sc
                                 \<and> row_index state + ?sc \<le> start (segs ! n) + count (segs ! n))
                then Inl AssertionFailure
                else ScanVector_loop env segs hu R
                       (state\<lparr>row_index := row_index state + ?sc,
                              previous_states := previous_states state @ [scan_state state],
                              current := Some n, scan_state := Some n,
                              segment_checked := False\<rparr>)
                       (ColumnSegment_Scan ?seg state ?sc res (R - r) False) (r - ?sc))
         else Inr (state\<lparr>row_index := row_index state + ?sc\<rparr>,
                   ColumnSegment_Scan ?seg state ?sc res (R - r) False, r - ?sc))"
    apply (subst ScanVector_loop.simps)
    apply (simp only: pos if_True d sum.case lo inr simp_thms if_False)
    apply (simp only: Let_def)
    apply (simp only: F1 F2 F3)
    apply (simp add: ColumnSegment_InitializeScan_def cong: option.case_cong if_cong)
    done
  {
    assume le: "r \<le> ?room"
    then have "?sc = r" by simp
    then show "ScanVector_loop env segs hu R state res r
             = Inr (state\<lparr>row_index := row_index state + r\<rparr>,
                    ColumnSegment_Scan ?seg state r res (R - r) False, 0)"
      by (simp add: unf)
  }
  {
    assume lt: "?room < r" and last: "length segs \<le> Suc i"
    then have sc: "?sc = ?room" by simp
    have rle: "?room \<le> r"
      using lt by simp
    have rem: "0 < r - ?room"
      using lt by (simp add: word_less_nat_alt unat_sub [OF rle])
    have nx: "GetNextSegment segs (current state) = None"
      using cur last by (simp add: GetNextSegment_def)
    show "ScanVector_loop env segs hu R state res r
             = Inr (state\<lparr>row_index := start ?seg + count ?seg\<rparr>,
                    ColumnSegment_Scan ?seg state ?room res (R - r) False, r - ?room)"
      using rem nx by (simp add: unf sc)
  }
  {
    assume lt: "?room < r" and more: "Suc i < length segs"
      and cont: "start (segs ! Suc i) = start ?seg + count ?seg"
      and nov2: "unat (start (segs ! Suc i)) + unat (count (segs ! Suc i)) < 2 ^ 64"
    from lt have sc: "?sc = ?room" by simp
    have rle: "?room \<le> r"
      using lt by simp
    have rem: "0 < r - ?room"
      using lt by (simp add: word_less_nat_alt unat_sub [OF rle])
    have nx: "GetNextSegment segs (current state) = Some (Suc i)"
      using cur more by (simp add: GetNextSegment_def)
    have ok: "start (segs ! Suc i) \<le> start (segs ! Suc i) + count (segs ! Suc i)"
      using nov2 by (simp add: word_le_nat_alt unat_add_lem [THEN iffD1])
    show "ScanVector_loop env segs hu R state res r
             = ScanVector_loop env segs hu R
                 (state\<lparr>row_index := start ?seg + count ?seg,
                        previous_states := previous_states state @ [scan_state state],
                        current := Some (Suc i), scan_state := Some (Suc i),
                        segment_checked := False\<rparr>)
                 (ColumnSegment_Scan ?seg state ?room res (R - r) False) (r - ?room)"
      using rem nx ok cont by (simp add: unf sc)
  }
qed


lemma length_seg_rows: "length (seg_rows seg) = unat (count seg)"
  by (simp add: seg_rows_def)

lemma nth_seg_rows: "k < unat (count seg) \<Longrightarrow> seg_rows seg ! k = rows seg k"
  by (simp add: seg_rows_def)

lemma contiguous_head: "contiguous (seg # post) \<Longrightarrow> unat (start seg) + unat (count seg) < 2 ^ 64"
  by (cases post) simp_all

lemma scanned_more:
  fixes r R room :: idx_t
  assumes rest: "scanned segs avail' R (r - room) (row + room)
                   (\<lambda>k. if unat (R - r) \<le> k \<and> k < unat (R - r) + unat room
                        then A ! (k - unat (R - r)) else res k) out"
    and len: "length A = unat room" and lt: "room < r" and rR: "r \<le> R"
  shows "scanned segs (A @ avail') R r row res out"
proof -
  from rest obtain state' res' r' where
    out: "out = Inr (state', res', r')" and le: "r' \<le> r - room"
    and m: "unat (r - room - r') = min (unat (r - room)) (length avail')"
    and res': "res' = (\<lambda>k. if unat (R - (r - room)) \<le> k
                              \<and> k < unat (R - (r - room)) + unat (r - room - r')
                           then avail' ! (k - unat (R - (r - room)))
                           else (if unat (R - r) \<le> k \<and> k < unat (R - r) + unat room
                                 then A ! (k - unat (R - r)) else res k))"
    and row: "row_index state' = row + room + (r - room - r')"
    and fin: "0 < r' \<longrightarrow> current state' = GetLastSegment segs
                      \<and> row_index state' = start (last segs) + count (last segs)"
    unfolding scanned_def by blast
  have rle: "room \<le> r" using lt by simp
  have u1: "unat (r - room) = unat r - unat room"
    by (simp add: unat_sub [OF rle])
  have ur: "unat room < unat r" "unat r \<le> unat R"
    using lt rR by (simp_all add: word_less_nat_alt word_le_nat_alt)
  have le': "unat r' \<le> unat r - unat room"
    using le u1 by (simp add: word_le_nat_alt)
  have r'r: "r' \<le> r"
    using le' ur by (simp add: word_le_nat_alt)
  have u2: "unat (r - room - r') = unat r - unat room - unat r'"
    using le u1 by (simp add: unat_sub)
  have u3: "unat (r - r') = unat r - unat r'"
    by (simp add: unat_sub [OF r'r])
  have "r - room \<le> R"
    using ur u1 by (simp add: word_le_nat_alt)
  then have u4: "unat (R - (r - room)) = unat R - (unat r - unat room)"
    by (simp add: unat_sub u1)
  have u5: "unat (R - r) = unat R - unat r"
    by (simp add: unat_sub [OF rR])
  have nat_fact: "a - c = min a (b + l)"
    if "b < a" "c \<le> a - b" "a - b - c = min (a - b) l" for a b c l :: nat
    using that by arith
  have m2: "unat (r - r') = min (unat r) (length (A @ avail'))"
    using nat_fact [OF ur(1) le' m [unfolded u1 u2]] by (simp add: u3 len)
  have cnt: "unat (r - r') = unat room + unat (r - room - r')"
    using le' ur unfolding u2 u3 by simp
  have res2: "res' = (\<lambda>k. if unat (R - r) \<le> k \<and> k < unat (R - r) + unat (r - r')
                        then (A @ avail') ! (k - unat (R - r)) else res k)"
    unfolding res' cnt u4 u5
    using ur by (auto simp: fun_eq_iff nth_append len)
  have row2: "row_index state' = row + (r - r')"
    using row by simp
  show ?thesis
    unfolding scanned_def
    using out r'r m2 res2 row2 fin by blast
qed


lemma ScanVector_loop_zero:
  "ScanVector_loop env segs hu R state res 0 = Inr (state, res, 0)"
  by (subst ScanVector_loop.simps) simp

lemma scannedI:
  fixes r R r' :: idx_t
  assumes "out = Inr (state', res', r')" and "r' \<le> r"
    and "unat (r - r') = min (unat r) (length avail)"
    and "\<And>k. unat (R - r) \<le> k \<Longrightarrow> k < unat (R - r) + unat (r - r')
            \<Longrightarrow> res' k = avail ! (k - unat (R - r))"
    and "\<And>k. \<not> (unat (R - r) \<le> k \<and> k < unat (R - r) + unat (r - r')) \<Longrightarrow> res' k = res k"
    and "row_index state' = row + (r - r')"
    and "0 < r' \<Longrightarrow> current state' = GetLastSegment segs
                      \<and> row_index state' = start (last segs) + count (last segs)"
  shows "scanned segs avail R r row res out"
proof -
  have "res' = (\<lambda>k. if unat (R - r) \<le> k \<and> k < unat (R - r) + unat (r - r')
                        then avail ! (k - unat (R - r)) else res k)"
    using assms(4,5) by (auto simp: fun_eq_iff)
  then show ?thesis
    unfolding scanned_def using assms(1,2,3,6,7) by blast
qed

lemma ScanVector_loop_here:
  fixes env :: "('v, 'st) Env" and r R :: idx_t
  assumes segs: "segs = pre @ seg # post" and cur: "current state = Some (length pre)"
    and nov: "unat (start seg) + unat (count seg) < 2 ^ 64"
    and lo: "start seg \<le> row_index state"
    and hi: "unat (row_index state) \<le> unat (start seg) + unat (count seg)"
    and rR: "r \<le> R"
    and here: "r \<le> start seg + count seg - row_index state \<or> post = []"
  shows "scanned segs (drop (unat (row_index state - start seg)) (seg_rows seg) @ column_rows post)
           R r (row_index state) res (ScanVector_loop env segs hu R state res r)"
proof -
  let ?i = "length pre"
  let ?room = "start seg + count seg - row_index state"
  let ?d = "unat (row_index state - start seg)"
  let ?A = "drop ?d (seg_rows seg)"
  have i: "?i < length segs" "segs ! ?i = seg"
    using segs by simp_all
  have end_eq: "unat (start seg + count seg) = unat (start seg) + unat (count seg)"
    using nov by (simp add: unat_add_lem [THEN iffD1])
  have inr: "row_index state \<le> start seg + count seg"
    using hi by (simp add: word_le_nat_alt end_eq)
  have ud: "?d = unat (row_index state) - unat (start seg)"
    using lo by (simp add: unat_sub)
  have uroom: "unat ?room = unat (count seg) - ?d"
    using inr lo by (simp add: unat_sub end_eq ud word_le_nat_alt)
  have len: "length ?A = unat ?room"
    by (simp add: length_seg_rows uroom)
  have cell: "(?A @ column_rows post) ! j = rows seg (?d + j)" if "j < unat ?room" for j
    using that uroom by (simp add: nth_append len nth_seg_rows length_seg_rows)
  show ?thesis
  proof (cases "r = 0")
    case True
    show ?thesis
      unfolding True ScanVector_loop_zero
      by (rule scannedI [where r' = 0 and state' = state and res' = res]) simp_all
  next
    case False
    then have pos: "0 < r" by (simp add: word_gt_0)
    note step = ScanVector_loop_step [of state ?i segs, unfolded i(2), OF cur i(1) lo hi nov rR pos]
    show ?thesis
    proof (cases "r \<le> ?room")
      case True
      then have ule: "unat r \<le> unat ?room" by (simp add: word_le_nat_alt)
      show ?thesis
        unfolding step(1) [OF True]
      proof (rule scannedI [where r' = 0 and state' = "state\<lparr>row_index := row_index state + r\<rparr>"
                                and res' = "ColumnSegment_Scan seg state r res (R - r) False"])
        show "unat (r - 0) = min (unat r) (length (?A @ column_rows post))"
          using ule len by simp
        show "ColumnSegment_Scan seg state r res (R - r) False k
                = (?A @ column_rows post) ! (k - unat (R - r))"
          if "unat (R - r) \<le> k" "k < unat (R - r) + unat (r - 0)" for k
          using that ule by (simp add: ColumnSegment_Scan_def cell)
        show "ColumnSegment_Scan seg state r res (R - r) False k = res k"
          if "\<not> (unat (R - r) \<le> k \<and> k < unat (R - r) + unat (r - 0))" for k
          using that by (auto simp: ColumnSegment_Scan_def)
      qed simp_all
    next
      case False
      then have lt: "?room < r" by simp
      with here have post: "post = []" by auto
      have rle: "?room \<le> r" using lt by simp
      have ult: "unat ?room < unat r" using lt by (simp add: word_less_nat_alt)
      have sub: "r - (r - ?room) = ?room" by simp
      have last: "GetLastSegment segs = Some ?i" "last segs = seg"
        using segs post by (simp_all add: GetLastSegment_def)
      have "length segs \<le> Suc ?i" using segs post by simp
      note eq = step(2) [OF lt this]
      show ?thesis
        unfolding eq
      proof (rule scannedI [where r' = "r - ?room"
                                and state' = "state\<lparr>row_index := start seg + count seg\<rparr>"
                                and res' = "ColumnSegment_Scan seg state ?room res (R - r) False"])
        show "r - ?room \<le> r"
          using rle by (simp add: word_le_nat_alt unat_sub)
        show "unat (r - (r - ?room)) = min (unat r) (length (?A @ column_rows post))"
          using ult len by (simp add: sub post column_rows_def)
        show "ColumnSegment_Scan seg state ?room res (R - r) False k
                = (?A @ column_rows post) ! (k - unat (R - r))"
          if "unat (R - r) \<le> k" "k < unat (R - r) + unat (r - (r - ?room))" for k
          using that by (simp add: ColumnSegment_Scan_def cell sub)
        show "ColumnSegment_Scan seg state ?room res (R - r) False k = res k"
          if "\<not> (unat (R - r) \<le> k \<and> k < unat (R - r) + unat (r - (r - ?room)))" for k
          using that by (auto simp: ColumnSegment_Scan_def sub)
        show "row_index (state\<lparr>row_index := start seg + count seg\<rparr>)
                = row_index state + (r - (r - ?room))"
          by (simp add: sub)
        show "current (state\<lparr>row_index := start seg + count seg\<rparr>) = GetLastSegment segs
              \<and> row_index (state\<lparr>row_index := start seg + count seg\<rparr>)
                  = start (last segs) + count (last segs)"
          using cur last by simp
      qed simp
    qed
  qed
qed

lemma ScanVector_loop_scanned:
  fixes env :: "('v, 'st) Env" and r R :: idx_t
  assumes "segs = pre @ seg # post" and "current state = Some (length pre)"
    and "contiguous (seg # post)"
    and "start seg \<le> row_index state"
    and "unat (row_index state) \<le> unat (start seg) + unat (count seg)"
    and "r \<le> R"
  shows "scanned segs (drop (unat (row_index state - start seg)) (column_rows (seg # post)))
           R r (row_index state) res (ScanVector_loop env segs hu R state res r)"
  using assms
proof (induction post arbitrary: pre seg state res r)
  case (Nil pre seg state res r)
  note p = Nil.prems
  have nov: "unat (start seg) + unat (count seg) < 2 ^ 64"
    using p(3) by simp
  show ?case
    using ScanVector_loop_here [OF p(1,2) nov p(4,5,6), where env = env and hu = hu and res = res]
    by (simp add: column_rows_def)
next
  case (Cons t post pre seg state res r)
  note p = Cons.prems
  let ?i = "length pre"
  let ?room = "start seg + count seg - row_index state"
  let ?d = "unat (row_index state - start seg)"
  have i: "?i < length segs" "segs ! ?i = seg" "Suc ?i < length segs" "segs ! Suc ?i = t"
    using p(1) by (simp_all add: nth_append)
  have nov: "unat (start seg) + unat (count seg) < 2 ^ 64"
    and cont: "start t = start seg + count seg" and ct: "contiguous (t # post)"
    using p(3) by simp_all
  have nov2: "unat (start t) + unat (count t) < 2 ^ 64"
    using ct by (rule contiguous_head)
  have end_eq: "unat (start seg + count seg) = unat (start seg) + unat (count seg)"
    using nov by (simp add: unat_add_lem [THEN iffD1])
  have inr: "row_index state \<le> start seg + count seg"
    using p(5) by (simp add: word_le_nat_alt end_eq)
  have ud: "?d = unat (row_index state) - unat (start seg)"
    using p(4) by (simp add: unat_sub)
  have uroom: "unat ?room = unat (count seg) - ?d"
    using inr p(4) by (simp add: unat_sub end_eq ud word_le_nat_alt)
  have dle: "?d \<le> length (seg_rows seg)"
    using p(5) by (simp add: length_seg_rows ud)
  have avail: "drop ?d (column_rows (seg # t # post))
                 = drop ?d (seg_rows seg) @ column_rows (t # post)"
    using dle by (simp add: column_rows_def)
  have len: "length (drop ?d (seg_rows seg)) = unat ?room"
    by (simp add: length_seg_rows uroom)
  have cell: "drop ?d (seg_rows seg) ! j = rows seg (?d + j)" if "j < unat ?room" for j
    using that uroom by (simp add: nth_seg_rows length_seg_rows)
  show ?case
  proof (cases "r \<le> ?room")
    case True
    show ?thesis
      unfolding avail
      by (rule ScanVector_loop_here [OF p(1,2) nov p(4,5,6)]) (simp add: True)
  next
    case False
    then have lt: "?room < r" by simp
    then have pos: "0 < r"
      by (simp add: word_less_nat_alt)
    note step = ScanVector_loop_step [of state ?i segs, unfolded i(2) i(4), OF p(2) i(1) p(4,5) nov p(6) pos]
    have rle: "?room \<le> r" using lt by simp
    let ?state5 = "state\<lparr>row_index := start seg + count seg,
                      previous_states := previous_states state @ [scan_state state],
                      current := Some (Suc ?i), scan_state := Some (Suc ?i),
                      segment_checked := False\<rparr>"
    let ?res5 = "ColumnSegment_Scan seg state ?room res (R - r) False"
    note eq = step(3) [OF lt i(3) cont nov2]
    have r5: "r - ?room \<le> R"
      using p(6) rle by (simp add: word_le_nat_alt unat_sub)
    have ih: "scanned segs (drop (unat (row_index ?state5 - start t)) (column_rows (t # post)))
                R (r - ?room) (row_index ?state5) ?res5
                (ScanVector_loop env segs hu R ?state5 ?res5 (r - ?room))"
    proof (rule Cons.IH [of "pre @ [seg]"])
      show "segs = (pre @ [seg]) @ t # post" using p(1) by simp
      show "current ?state5 = Some (length (pre @ [seg]))" by simp
      show "contiguous (t # post)" by (rule ct)
      show "start t \<le> row_index ?state5" by (simp add: cont)
      show "unat (row_index ?state5) \<le> unat (start t) + unat (count t)" by (simp add: cont)
      show "r - ?room \<le> R" by (rule r5)
    qed
    have row5: "row_index ?state5 = row_index state + ?room" by simp
    have zero: "unat (row_index ?state5 - start t) = 0" by (simp add: cont)
    have res5: "?res5 = (\<lambda>k. if unat (R - r) \<le> k \<and> k < unat (R - r) + unat ?room
                       then drop ?d (seg_rows seg) ! (k - unat (R - r)) else res k)"
      using cell by (auto simp: ColumnSegment_Scan_def fun_eq_iff)
    note ih1 = ih [unfolded zero drop_0]
    note ih2 = ih1 [unfolded row5 res5]
    show ?thesis
      unfolding eq avail res5
      by (rule scanned_more [OF ih2 len lt p(6)])
  qed
qed

lemma ScanVector_pre:
  assumes cur: "current state = Some i" and i: "i < length (data col)"
    and lo: "start (data col ! i) \<le> row_index state"
    and ini: "initialized state \<longrightarrow> internal_index state \<le> row_index state"
  shows "\<exists>state2. current state2 = current state \<and> row_index state2 = row_index state
           \<and> ScanVector env col state res r hu
               = (case ScanVector_loop env (data col) hu r state2 res r of
                    Inl e \<Rightarrow> Inl e
                  | Inr (state3, result1, remaining1) \<Rightarrow>
                      Inr (state3\<lparr>internal_index := row_index state3\<rparr>, result1,
                           r - remaining1))"
proof (cases "initialized state")
  case True
  show ?thesis
  proof (cases "internal_index state < row_index state")
    case skip: True
    show ?thesis
      by (rule exI [of _ "state\<lparr>previous_states := [], internal_index := row_index state\<rparr>"])
         (use True skip cur i ini in
           \<open>simp add: ScanVector_def Let_def deref_def HasSegment_def ColumnSegment_Skip_def
              cong: sum.case_cong\<close>)
  next
    case noskip: False
    show ?thesis
      by (rule exI [of _ "state\<lparr>previous_states := []\<rparr>"])
         (use True noskip cur i ini in
           \<open>simp add: ScanVector_def Let_def deref_def HasSegment_def ColumnSegment_Skip_def
              cong: sum.case_cong\<close>)
  qed
next
  case False
  show ?thesis
  proof (cases "start (data col ! i) < row_index state")
    case skip: True
    show ?thesis
      by (rule exI [of _ "state\<lparr>previous_states := [], scan_state := Some i,
                                initialized := True, internal_index := row_index state\<rparr>"])
         (use False skip cur i lo in
           \<open>simp add: ScanVector_def Let_def deref_def HasSegment_def ColumnSegment_Skip_def
              ColumnSegment_InitializeScan_def cong: sum.case_cong\<close>)
  next
    case noskip: False
    show ?thesis
      by (rule exI [of _ "state\<lparr>previous_states := [], scan_state := Some i,
                                internal_index := start (data col ! i), initialized := True\<rparr>"])
         (use False noskip cur i lo in
           \<open>simp add: ScanVector_def Let_def deref_def HasSegment_def ColumnSegment_Skip_def
              ColumnSegment_InitializeScan_def cong: sum.case_cong\<close>)
  qed
qed

text \<open>
  The scan of a valid cursor, for any requested count.
\<close>

lemma ScanVector_decoded:
  fixes env :: "('v, 'st) Env" and r :: idx_t
  assumes cur: "current state = Some i" and i: "i < length (data col)"
    and cont: "contiguous (drop i (data col))"
    and lo: "start (data col ! i) \<le> row_index state"
    and hi: "unat (row_index state) \<le> unat (start (data col ! i)) + unat (count (data col ! i))"
    and ini: "initialized state \<longrightarrow> internal_index state \<le> row_index state"
  shows "\<exists>state' res' n.
           ScanVector env col state res r hu = Inr (state', res', n)
         \<and> unat n = min (unat r) (length (rows_from (data col) i (row_index state)))
         \<and> map res' [0..<unat n] = take (unat n) (rows_from (data col) i (row_index state))
         \<and> (\<forall>k\<ge>unat n. res' k = res k)
         \<and> (unat r \<le> length (rows_from (data col) i (row_index state)) \<longrightarrow> n = r)
         \<and> (n < r \<longrightarrow> length (rows_from (data col) i (row_index state)) < unat r
                      \<and> current state' = Some (length (data col) - 1)
                      \<and> row_index state' = start (last (data col)) + count (last (data col)))
         \<and> row_index state' = row_index state + n
         \<and> internal_index state' = row_index state'"
proof -
  let ?segs = "data col"
  let ?avail = "rows_from ?segs i (row_index state)"
  from ScanVector_pre [OF cur i lo ini, of env res r hu]
  obtain state2 where c2: "current state2 = Some i" and r2: "row_index state2 = row_index state"
    and eq: "ScanVector env col state res r hu
               = (case ScanVector_loop env ?segs hu r state2 res r of
                    Inl e \<Rightarrow> Inl e
                  | Inr (state3, result1, remaining1) \<Rightarrow>
                      Inr (state3\<lparr>internal_index := row_index state3\<rparr>, result1,
                           r - remaining1))"
    using cur by auto
  have split: "?segs = take i ?segs @ ?segs ! i # drop (Suc i) ?segs"
    using i by (rule id_take_nth_drop)
  have c2': "current state2 = Some (length (take i ?segs))"
    using c2 i by simp
  have cont': "contiguous (?segs ! i # drop (Suc i) ?segs)"
    using cont i by (simp add: Cons_nth_drop_Suc)
  have "scanned ?segs
          (drop (unat (row_index state2 - start (?segs ! i)))
             (column_rows (?segs ! i # drop (Suc i) ?segs)))
          r r (row_index state2) res (ScanVector_loop env ?segs hu r state2 res r)"
    by (rule ScanVector_loop_scanned [OF split c2' cont'])
       (use lo hi in \<open>simp_all add: r2\<close>)
  then have sc: "scanned ?segs ?avail r r (row_index state) res
                   (ScanVector_loop env ?segs hu r state2 res r)"
    using i by (simp add: r2 rows_from_def Cons_nth_drop_Suc)
  then obtain state3 res' r' where
    out: "ScanVector_loop env ?segs hu r state2 res r = Inr (state3, res', r')"
    and le: "r' \<le> r"
    and m: "unat (r - r') = min (unat r) (length ?avail)"
    and res': "res' = (\<lambda>k. if unat (r - r) \<le> k \<and> k < unat (r - r) + unat (r - r')
                           then ?avail ! (k - unat (r - r)) else res k)"
    and row: "row_index state3 = row_index state + (r - r')"
    and fin: "0 < r' \<longrightarrow> current state3 = GetLastSegment ?segs
                      \<and> row_index state3 = start (last ?segs) + count (last ?segs)"
    unfolding scanned_def by blast
  let ?n = "r - r'"
  have ne: "?segs \<noteq> []" using i by auto
  have un: "unat ?n = unat r - unat r'"
    by (simp add: unat_sub [OF le])
  have ule: "unat r' \<le> unat r"
    using le by (simp add: word_le_nat_alt)
  have g1: "map res' [0..<unat ?n] = take (unat ?n) ?avail"
    unfolding res' using m by (auto simp: list_eq_iff_nth_eq)
  have g2: "\<forall>k\<ge>unat ?n. res' k = res k"
    unfolding res' by simp
  have g3: "unat r \<le> length ?avail \<longrightarrow> ?n = r"
    using m by (auto simp: word_unat_eq_iff)
  have lt_iff: "?n < r \<longleftrightarrow> 0 < r'"
    using ule unfolding word_less_nat_alt un by simp arith
  have g4: "?n < r \<longrightarrow> length ?avail < unat r
                      \<and> current state3 = Some (length ?segs - 1)
                      \<and> row_index state3 = start (last ?segs) + count (last ?segs)"
  proof
    assume a: "?n < r"
    then have "unat ?n < unat r" by (simp add: word_less_nat_alt)
    with m have "length ?avail < unat r" by (simp add: min_def split: if_splits)
    moreover from a lt_iff fin have "current state3 = GetLastSegment ?segs"
      "row_index state3 = start (last ?segs) + count (last ?segs)" by simp_all
    ultimately show "length ?avail < unat r
                      \<and> current state3 = Some (length ?segs - 1)
                      \<and> row_index state3 = start (last ?segs) + count (last ?segs)"
      using ne by (simp add: GetLastSegment_def)
  qed
  show ?thesis
    apply (rule exI [of _ "state3\<lparr>internal_index := row_index state3\<rparr>"])
    apply (rule exI [of _ res'])
    apply (rule exI [of _ ?n])
    using eq out m g1 g2 g3 g4 row by simp
qed


text \<open>
  Claim C10. Let the cursor be valid: it points at a segment of the tree, the chain from
  that segment on is contiguous, the cursor's row lies in the segment (its end included),
  and an initialized cursor's decoder is not ahead of its row; these are the assertions
  of the source. Then \<^verbatim>\<open>ScanVector(state, result, remaining, has_updates)\<close>
  returns, without an error, the number \<open>n\<close> of rows it decoded: the first \<open>n\<close>
  cells of the output are the first \<open>n\<close> rows from the cursor's row on, and every
  other cell of the output is as it was. \<open>n\<close> is the requested count whenever the
  chain holds that many rows from the cursor on; it is smaller only when the chain holds
  fewer, and then the cursor is left at the end of the last segment.
\<close>

theorem ScanVector_returns_decoded:
  fixes env :: "('v, 'st) Env" and r :: idx_t
  assumes cur: "current state = Some i" and i: "i < length (data col)"
    and cont: "contiguous (drop i (data col))"
    and lo: "start (data col ! i) \<le> row_index state"
    and hi: "unat (row_index state) \<le> unat (start (data col ! i)) + unat (count (data col ! i))"
    and ini: "initialized state \<longrightarrow> internal_index state \<le> row_index state"
  shows "\<exists>state' res' n.
           ScanVector env col state res r hu = Inr (state', res', n)
         \<and> unat n = min (unat r) (length (rows_from (data col) i (row_index state)))
         \<and> map res' [0..<unat n] = take (unat n) (rows_from (data col) i (row_index state))
         \<and> (\<forall>k\<ge>unat n. res' k = res k)
         \<and> (unat r \<le> length (rows_from (data col) i (row_index state)) \<longrightarrow> n = r)
         \<and> (n < r \<longrightarrow> length (rows_from (data col) i (row_index state)) < unat r
                      \<and> current state' = Some (length (data col) - 1)
                      \<and> row_index state' = start (last (data col)) + count (last (data col)))
         \<and> row_index state' = row_index state + n
         \<and> internal_index state' = row_index state'"
  using assms by (rule ScanVector_decoded)

theorem ScanVector_returns_decoded_witness:
  "current ex_state = Some 0 \<and> 0 < length (data ex_col)
   \<and> contiguous (drop 0 (data ex_col))
   \<and> start (data ex_col ! 0) \<le> row_index ex_state
   \<and> unat (row_index ex_state) \<le> unat (start (data ex_col ! 0)) + unat (count (data ex_col ! 0))
   \<and> \<not> initialized ex_state
   \<and> rows_from (data ex_col) 0 (row_index ex_state) = [Some 0, Some 1, Some 2, Some 3, Some 4]
   \<and> (\<exists>state' res'.
         ScanVector ex_env ex_col ex_state (\<lambda>k. None) 3 False = Inr (state', res', 3)
         \<and> map res' [0..<3] = [Some 0, Some 1, Some 2] \<and> res' 3 = None)
   \<and> (\<exists>state' res'.
         ScanVector ex_env ex_col ex_state (\<lambda>k. None) 1024 False = Inr (state', res', 5)
         \<and> map res' [0..<5] = [Some 0, Some 1, Some 2, Some 3, Some 4]
         \<and> current state' = Some 1 \<and> row_index state' = 5)"
proof -
  have h: "current ex_state = Some 0" "0 < length (data ex_col)"
    "contiguous (drop 0 (data ex_col))"
    "start (data ex_col ! 0) \<le> row_index ex_state"
    "unat (row_index ex_state) \<le> unat (start (data ex_col ! 0)) + unat (count (data ex_col ! 0))"
    "initialized ex_state \<longrightarrow> internal_index ex_state \<le> row_index ex_state"
    by (simp_all add: ex_state_def ex_col_def ex_seg_def)
  have ni: "\<not> initialized ex_state"
    by (simp add: ex_state_def)
  have av: "rows_from (data ex_col) 0 (row_index ex_state)
              = [Some 0, Some 1, Some 2, Some 3, Some 4]"
    by code_simp
  have u: "unat n = 3 \<longleftrightarrow> n = 3" "unat n = 5 \<longleftrightarrow> n = 5" for n :: idx_t
    by (simp_all add: word_unat_eq_iff)
  from ScanVector_returns_decoded [OF h, of ex_env "\<lambda>k. None" 3 False]
  have a: "\<exists>state' res'.
         ScanVector ex_env ex_col ex_state (\<lambda>k. None) 3 False = Inr (state', res', 3)
         \<and> map res' [0..<3] = [Some 0, Some 1, Some 2] \<and> res' 3 = None"
    unfolding av by (fastforce simp: u)
  from ScanVector_returns_decoded [OF h, of ex_env "\<lambda>k. None" 1024 False]
  obtain state' res' n where
    r: "ScanVector ex_env ex_col ex_state (\<lambda>k. None) 1024 False = Inr (state', res', n)"
    and n: "unat n = min (unat (1024::idx_t)) (length [Some (0::nat), Some 1, Some 2, Some 3, Some 4])"
    and cells: "map res' [0..<unat n] = take (unat n) [Some 0, Some 1, Some 2, Some 3, Some 4]"
    and fin: "n < 1024 \<longrightarrow> current state' = Some (length (data ex_col) - 1)
                \<and> row_index state' = start (last (data ex_col)) + count (last (data ex_col))"
    unfolding av by blast
  from n have "unat n = 5"
    by simp
  then have n5: "n = 5"
    by (simp only: u)
  have b: "\<exists>state' res'.
         ScanVector ex_env ex_col ex_state (\<lambda>k. None) 1024 False = Inr (state', res', 5)
         \<and> map res' [0..<5] = [Some 0, Some 1, Some 2, Some 3, Some 4]
         \<and> current state' = Some 1 \<and> row_index state' = 5"
    using r cells fin unfolding n5
    by (intro exI [of _ state'] exI [of _ res']) (simp add: ex_col_def ex_seg_def)
  show ?thesis
    using h(1-5) ni av a b by simp
qed

section \<open>Scanning a vector block, fetching by row id\<close>

lemma column_rows_Cons: "column_rows (s # segs) = seg_rows s @ column_rows segs"
  by (simp add: column_rows_def)

lemma column_rows_append: "column_rows (xs @ ys) = column_rows xs @ column_rows ys"
  by (simp add: column_rows_def)

lemma contiguous_tail: "contiguous (s # segs) \<Longrightarrow> contiguous segs"
  by (cases segs) simp_all

lemma contiguous_drop: "contiguous segs \<Longrightarrow> contiguous (drop i segs)"
proof (induction i arbitrary: segs)
  case 0
  then show ?case by simp
next
  case (Suc i)
  show ?case
  proof (cases segs)
    case Nil
    then show ?thesis by simp
  next
    case (Cons s rest)
    with Suc.prems have "contiguous rest" by (simp add: contiguous_tail)
    with Suc.IH Cons show ?thesis by simp
  qed
qed

lemma contiguous_start:
  "contiguous segs \<Longrightarrow> i < length segs \<Longrightarrow>
     unat (start (segs ! i)) = unat (start (hd segs)) + length (column_rows (take i segs))"
proof (induction segs arbitrary: i)
  case Nil
  then show ?case by simp
next
  case (Cons s rest)
  show ?case
  proof (cases i)
    case 0
    then show ?thesis by (simp add: column_rows_def)
  next
    case (Suc j)
    with Cons.prems obtain t rest' where rest: "rest = t # rest'"
      by (cases rest) auto
    from Cons.prems rest have nov: "unat (start s) + unat (count s) < 2 ^ 64"
      and st: "start t = start s + count s" and ct: "contiguous rest"
      by simp_all
    have ut: "unat (start t) = unat (start s) + unat (count s)"
      using nov by (simp add: st unat_add_lem [THEN iffD1])
    from Cons.IH [OF ct, of j] Cons.prems Suc
    have "unat (start (rest ! j)) = unat (start (hd rest)) + length (column_rows (take j rest))"
      by simp
    then show ?thesis
      using Suc rest ut by (simp add: column_rows_Cons length_seg_rows)
  qed
qed

lemma rows_from_eq:
  assumes ct: "contiguous segs" and i: "i < length segs"
    and lo: "start (segs ! i) \<le> row"
  shows "rows_from segs i row = drop (unat row - unat (start (hd segs))) (column_rows segs)"
proof -
  have st: "unat (start (segs ! i)) = unat (start (hd segs)) + length (column_rows (take i segs))"
    by (rule contiguous_start [OF ct i])
  have d: "unat (row - start (segs ! i)) = unat row - unat (start (segs ! i))"
    using lo by (simp add: unat_sub)
  have le: "unat (start (segs ! i)) \<le> unat row"
    using lo by (simp add: word_le_nat_alt)
  have "column_rows segs = column_rows (take i segs) @ column_rows (drop i segs)"
    using column_rows_append [of "take i segs" "drop i segs"] by simp
  then have "drop (unat row - unat (start (hd segs))) (column_rows segs)
               = drop (unat row - unat (start (segs ! i))) (column_rows (drop i segs))"
    using st le by simp
  then show ?thesis
    by (simp add: rows_from_def d)
qed

lemma find_segment_contiguous:
  "contiguous segs \<Longrightarrow> segs \<noteq> [] \<Longrightarrow> start (hd segs) \<le> r \<Longrightarrow>
   unat r < unat (start (hd segs)) + length (column_rows segs) \<Longrightarrow>
     \<exists>i. find_segment segs r k = Some (k + i) \<and> i < length segs \<and> contains_row (segs ! i) r"
proof (induction segs arbitrary: k)
  case Nil
  then show ?case by simp
next
  case (Cons s rest)
  show ?case
  proof (cases "contains_row s r")
    case True
    then show ?thesis by (intro exI [of _ 0]) simp
  next
    case False
    have lo: "start s \<le> r" using Cons.prems(3) by simp
    have nov: "unat (start s) + unat (count s) < 2 ^ 64"
      using Cons.prems(1) by (rule contiguous_head)
    from False lo have "\<not> r - start s < count s"
      by (simp add: contains_row_def)
    then have ge: "unat (start s) + unat (count s) \<le> unat r"
      using lo by (simp add: word_less_nat_alt unat_sub word_le_nat_alt)
    with Cons.prems(4) obtain t rest' where rest: "rest = t # rest'"
      by (cases rest) (auto simp: column_rows_def length_seg_rows)
    from Cons.prems(1) rest have st: "start t = start s + count s" and ct: "contiguous rest"
      by simp_all
    have ut: "unat (start t) = unat (start s) + unat (count s)"
      using nov by (simp add: st unat_add_lem [THEN iffD1])
    have "\<exists>i. find_segment rest r (Suc k) = Some (Suc k + i) \<and> i < length rest
               \<and> contains_row (rest ! i) r"
    proof (rule Cons.IH [OF ct])
      show "rest \<noteq> []" using rest by simp
      show "start (hd rest) \<le> r" using ge ut rest by (simp add: word_le_nat_alt)
      show "unat r < unat (start (hd rest)) + length (column_rows rest)"
        using Cons.prems(4) rest ut by (simp add: column_rows_Cons length_seg_rows)
    qed
    then obtain i where "find_segment rest r (Suc k) = Some (Suc k + i)" "i < length rest"
      "contains_row (rest ! i) r" by blast
    then show ?thesis
      using False by (intro exI [of _ "Suc i"]) simp
  qed
qed


lemma contiguous_end:
  "contiguous segs \<Longrightarrow> segs \<noteq> [] \<Longrightarrow>
     unat (start (hd segs)) + length (column_rows segs) < 2 ^ 64"
proof (induction segs)
  case Nil
  then show ?case by simp
next
  case (Cons s rest)
  have nov: "unat (start s) + unat (count s) < 2 ^ 64"
    using Cons.prems(1) by (rule contiguous_head)
  show ?case
  proof (cases rest)
    case Nil
    then show ?thesis using nov by (simp add: column_rows_def length_seg_rows)
  next
    case (Cons t rest')
    with Cons.prems have st: "start t = start s + count s" and ct: "contiguous rest"
      by simp_all
    have ut: "unat (start t) = unat (start s) + unat (count s)"
      using nov by (simp add: st unat_add_lem [THEN iffD1])
    from Cons.IH [OF ct] Cons have "unat (start t) + length (column_rows rest) < 2 ^ 64"
      by simp
    then show ?thesis
      using ut by (simp add: column_rows_Cons length_seg_rows)
  qed
qed

text \<open>
  The scan of a valid cursor on a valid tree, in terms of the column's rows.
\<close>

lemma ScanVector_column:
  fixes env :: "('v, 'st) Env" and col :: "('v, 'st) ColumnData" and r :: idx_t
  assumes tv: "tree_valid col"
    and cur: "current state = Some i" and i: "i < length (data col)"
    and lo: "start (data col ! i) \<le> row_index state"
    and hi: "unat (row_index state) \<le> unat (start (data col ! i)) + unat (count (data col ! i))"
    and ini: "initialized state \<longrightarrow> internal_index state \<le> row_index state"
  shows "\<exists>state' base n.
           ScanVector env col state res r hu = Inr (state', base, n)
         \<and> unat n = min (unat r)
                      (unat (col_count col) - (unat (row_index state) - unat (col_start col)))
         \<and> map base [0..<unat n]
             = take (unat n)
                 (drop (unat (row_index state) - unat (col_start col)) (column_rows (data col)))
         \<and> (\<forall>k\<ge>unat n. base k = res k)
         \<and> row_index state' = row_index state + n"
proof -
  let ?segs = "data col"
  have ne: "?segs \<noteq> []" using i by auto
  from tv have ct: "contiguous ?segs" and hd: "start (hd ?segs) = col_start col"
    and len: "length (column_rows ?segs) = unat (col_count col)"
    using ne by (simp_all add: tree_valid_def)
  have avail: "rows_from ?segs i (row_index state)
                 = drop (unat (row_index state) - unat (col_start col)) (column_rows ?segs)"
    using rows_from_eq [OF ct i lo] by (simp add: hd)
  have alen: "length (rows_from ?segs i (row_index state))
                = unat (col_count col) - (unat (row_index state) - unat (col_start col))"
    by (simp add: avail len)
  from ScanVector_decoded [OF cur i contiguous_drop [OF ct] lo hi ini, of env res r hu]
  obtain state' base n where
    sv: "ScanVector env col state res r hu = Inr (state', base, n)"
    and n: "unat n = min (unat r) (length (rows_from ?segs i (row_index state)))"
    and cells: "map base [0..<unat n] = take (unat n) (rows_from ?segs i (row_index state))"
    and rest: "\<forall>k\<ge>unat n. base k = res k"
    and row: "row_index state' = row_index state + n"
    by blast
  show ?thesis
    apply (rule exI [of _ state'])
    apply (rule exI [of _ base])
    apply (rule exI [of _ n])
    using sv n cells rest row unfolding avail alen
    by (simp add: len)
qed

text \<open>
  Claim C4, as amended. Let the tree be valid, let the vector block \<open>vidx\<close> begin
  inside the column (\<open>vidx * 1024 < count\<close>), and let the cursor be valid, at any row
  of the column. Then \<^verbatim>\<open>Scan\<close> asks for \<open>min(1024, count - vidx * 1024)\<close>
  rows and decodes them from the cursor's row on, whatever segments they lie in (fewer
  only when the column ends first), every other cell of the output being as it was; the
  output is that vector with the update overlay's entries for block \<open>vidx\<close> that the
  transaction sees applied to it (and is that vector when the column has no overlay).
  When the cursor stands at the block's first row, \<open>col_start + vidx * 1024\<close>, the
  count returned is \<open>min(1024, count - vidx * 1024)\<close> and the rows are those of the
  column from row \<open>vidx * 1024\<close> on.
\<close>

theorem Scan_vector_block:
  fixes env :: "('v, 'st) Env" and col :: "('v, 'st) ColumnData" and vidx :: idx_t
  assumes tv: "tree_valid col" and blk: "unat vidx * 1024 < unat (col_count col)"
    and cur: "current state = Some i" and i: "i < length (data col)"
    and lo: "start (data col ! i) \<le> row_index state"
    and hi: "unat (row_index state) \<le> unat (start (data col ! i)) + unat (count (data col ! i))"
    and ini: "initialized state \<longrightarrow> internal_index state \<le> row_index state"
  shows "\<exists>state' base n.
           Scan env col transaction vidx state res
             = Inr (state',
                    (case updates col of
                       None \<Rightarrow> base
                     | Some u \<Rightarrow> UpdateSegment_FetchUpdates u transaction vidx base),
                    n)
         \<and> unat n = min (min 1024 (unat (col_count col) - unat vidx * 1024))
                      (unat (col_count col) - (unat (row_index state) - unat (col_start col)))
         \<and> map base [0..<unat n]
             = take (unat n)
                 (drop (unat (row_index state) - unat (col_start col)) (column_rows (data col)))
         \<and> (\<forall>k\<ge>unat n. base k = res k)
         \<and> row_index state' = row_index state + n
         \<and> (row_index state = col_start col + vidx * STANDARD_VECTOR_SIZE \<longrightarrow>
              n = min STANDARD_VECTOR_SIZE (col_count col - vidx * STANDARD_VECTOR_SIZE)
              \<and> unat n = min 1024 (unat (col_count col) - unat vidx * 1024)
              \<and> map base [0..<min 1024 (unat (col_count col) - unat vidx * 1024)]
                  = take (min 1024 (unat (col_count col) - unat vidx * 1024))
                      (drop (unat vidx * 1024) (column_rows (data col))))"
proof -
  let ?segs = "data col"
  let ?vc = "min STANDARD_VECTOR_SIZE (col_count col - vidx * STANDARD_VECTOR_SIZE)"
  let ?m = "min 1024 (unat (col_count col) - unat vidx * 1024)"
  let ?d = "unat (row_index state) - unat (col_start col)"
  have ne: "?segs \<noteq> []" using i by auto
  from tv have ct: "contiguous ?segs" and hd: "start (hd ?segs) = col_start col"
    and len: "length (column_rows ?segs) = unat (col_count col)"
    using ne by (simp_all add: tree_valid_def)
  have small: "unat vidx * 1024 < 2 ^ 64"
    using blk unat_lt64 [of "col_count col"] by simp
  have uv: "unat (vidx * STANDARD_VECTOR_SIZE) = unat vidx * 1024"
    using small unat_mult_lem [of vidx "1024::idx_t"] by (simp add: STANDARD_VECTOR_SIZE_def)
  have "vidx * STANDARD_VECTOR_SIZE \<le> col_count col"
    using blk by (simp add: word_le_nat_alt uv)
  then have usub: "unat (col_count col - vidx * STANDARD_VECTOR_SIZE)
                     = unat (col_count col) - unat vidx * 1024"
    by (simp add: unat_sub uv)
  have uvc: "unat ?vc = ?m"
    unfolding unat_min usub by (simp add: STANDARD_VECTOR_SIZE_def)
  have endb: "unat (col_start col) + unat (col_count col) < 2 ^ 64"
    using contiguous_end [OF ct ne] by (simp add: hd len)
  from ScanVector_column [OF tv cur i lo hi ini, of env res ?vc "HasUpdates col"]
  obtain state' base n where
    sv: "ScanVector env col state res ?vc (HasUpdates col) = Inr (state', base, n)"
    and n: "unat n = min (unat ?vc) (unat (col_count col) - ?d)"
    and cells: "map base [0..<unat n] = take (unat n) (drop ?d (column_rows ?segs))"
    and rest: "\<forall>k\<ge>unat n. base k = res k"
    and row: "row_index state' = row_index state + n"
    by blast
  have scan: "Scan env col transaction vidx state res
             = Inr (state',
                    (case updates col of
                       None \<Rightarrow> base
                     | Some u \<Rightarrow> UpdateSegment_FetchUpdates u transaction vidx base), n)"
    using sv
    by (simp add: Scan_def ScanVector_template_def Let_def FetchUpdates_def split: option.splits)
  have n': "unat n = min ?m (unat (col_count col) - ?d)"
    using n by (simp only: uvc)
  have at: "n = ?vc \<and> unat n = ?m
            \<and> map base [0..<?m] = take ?m (drop (unat vidx * 1024) (column_rows ?segs))"
    if pos: "row_index state = col_start col + vidx * STANDARD_VECTOR_SIZE"
  proof -
    have urow: "unat (row_index state) = unat (col_start col) + unat vidx * 1024"
      using endb blk unat_add_lem [of "col_start col" "vidx * STANDARD_VECTOR_SIZE"]
      by (simp add: pos uv)
    then have d: "?d = unat vidx * 1024" by simp
    have un: "unat n = ?m"
      using n' unfolding d by simp
    then have "unat n = unat ?vc" by (simp only: uvc)
    then have "n = ?vc" by (simp add: word_unat_eq_iff)
    moreover have "map base [0..<?m] = take ?m (drop (unat vidx * 1024) (column_rows ?segs))"
      using cells unfolding un d .
    ultimately show ?thesis using un by simp
  qed
  show ?thesis
    apply (rule exI [of _ state'])
    apply (rule exI [of _ base])
    apply (rule exI [of _ n])
    using scan n' cells rest row at
    by (simp add: uvc)
qed

theorem Scan_vector_block_witness:
  "tree_valid ex_col_updated \<and> unat (0::idx_t) * 1024 < unat (col_count ex_col_updated)
   \<and> current ex_state = Some 0 \<and> 0 < length (data ex_col_updated)
   \<and> row_index ex_state = col_start ex_col_updated + 0 * STANDARD_VECTOR_SIZE
   \<and> start (data ex_col_updated ! 0) \<le> row_index ex_state
   \<and> unat (row_index ex_state)
       \<le> unat (start (data ex_col_updated ! 0)) + unat (count (data ex_col_updated ! 0))
   \<and> \<not> initialized ex_state
   \<and> (\<exists>state' base.
         Scan ex_env ex_col_updated ex_transaction 0 ex_state (\<lambda>k. None)
           = Inr (state', UpdateSegment_FetchUpdates [ex_committed] ex_transaction 0 base, 5)
         \<and> map base [0..<5] = [Some 0, Some 1, Some 2, Some 3, Some 4])
   \<and> (case Scan ex_env ex_col_updated ex_transaction 0 ex_state (\<lambda>k. None) of
         Inl e \<Rightarrow> False
       | Inr (state', res', n) \<Rightarrow>
           n = 5 \<and> map res' [0..<5] = [Some 0, Some 100, Some 2, Some 3, Some 4])
   \<and> tree_valid ex_long \<and> unat (1::idx_t) * 1024 < unat (col_count ex_long)
   \<and> 0 < length (data ex_long) \<and> start (data ex_long ! 0) \<le> row_index ex_state
   \<and> unat (row_index ex_state) \<le> unat (start (data ex_long ! 0)) + unat (count (data ex_long ! 0))
   \<and> row_index ex_state \<noteq> col_start ex_long + 1 * STANDARD_VECTOR_SIZE
   \<and> (\<exists>state' base.
         Scan ex_env ex_long ex_transaction 1 ex_state (\<lambda>k. None) = Inr (state', base, 1024)
         \<and> map base [0..<1024] = take 1024 (column_rows (data ex_long))
         \<and> row_index state' = 1024)"
proof -
  have tv: "tree_valid ex_col_updated" "tree_valid ex_long"
    by (simp_all add: tree_valid_def ex_col_updated_def ex_col_def ex_long_def ex_seg_def
          ex_root_def ColumnData_new_def column_rows_def seg_rows_def)
  have h: "unat (0::idx_t) * 1024 < unat (col_count ex_col_updated)"
    "current ex_state = Some 0" "0 < length (data ex_col_updated)"
    "start (data ex_col_updated ! 0) \<le> row_index ex_state"
    "unat (row_index ex_state)
       \<le> unat (start (data ex_col_updated ! 0)) + unat (count (data ex_col_updated ! 0))"
    "initialized ex_state \<longrightarrow> internal_index ex_state \<le> row_index ex_state"
    by (simp_all add: ex_col_updated_def ex_col_def ex_seg_def ex_state_def ex_root_def
          ColumnData_new_def)
  have pos: "row_index ex_state = col_start ex_col_updated + 0 * STANDARD_VECTOR_SIZE"
    by (simp add: ex_col_updated_def ex_col_def ex_state_def ex_root_def ColumnData_new_def)
  have g: "unat (1::idx_t) * 1024 < unat (col_count ex_long)"
    "current ex_state = Some 0" "0 < length (data ex_long)"
    "start (data ex_long ! 0) \<le> row_index ex_state"
    "unat (row_index ex_state) \<le> unat (start (data ex_long ! 0)) + unat (count (data ex_long ! 0))"
    "initialized ex_state \<longrightarrow> internal_index ex_state \<le> row_index ex_state"
    by (simp_all add: ex_long_def ex_seg_def ex_state_def ex_root_def ColumnData_new_def)
  have npos: "row_index ex_state \<noteq> col_start ex_long + 1 * STANDARD_VECTOR_SIZE"
    by (simp add: ex_long_def ex_state_def ex_root_def ColumnData_new_def STANDARD_VECTOR_SIZE_def)
  have ni: "\<not> initialized ex_state"
    by (simp add: ex_state_def)
  have c: "col_count ex_col_updated = 5" "updates ex_col_updated = Some [ex_committed]"
    "col_start ex_col_updated = 0" "row_index ex_state = 0"
    "col_count ex_long = 2048" "updates ex_long = None" "col_start ex_long = 0"
    by (simp_all add: ex_col_updated_def ex_col_def ex_long_def ex_state_def ex_root_def
          ColumnData_new_def)
  have cr: "column_rows (data ex_col_updated) = [Some 0, Some 1, Some 2, Some 3, Some 4]"
    by code_simp
  have u: "unat n = 5 \<longleftrightarrow> n = 5" "unat n = 1024 \<longleftrightarrow> n = 1024" for n :: idx_t
    by (simp_all add: word_unat_eq_iff)
  from Scan_vector_block [OF tv(1) h, of ex_env ex_transaction "\<lambda>k. None"]
  obtain state' base n where
    s: "Scan ex_env ex_col_updated ex_transaction 0 ex_state (\<lambda>k. None)
       = Inr (state', (case updates ex_col_updated of None \<Rightarrow> base
                | Some u \<Rightarrow> UpdateSegment_FetchUpdates u ex_transaction 0 base), n)"
    and at: "row_index ex_state = col_start ex_col_updated + 0 * STANDARD_VECTOR_SIZE \<longrightarrow>
              n = min STANDARD_VECTOR_SIZE (col_count ex_col_updated - 0 * STANDARD_VECTOR_SIZE)
              \<and> unat n = min 1024 (unat (col_count ex_col_updated) - unat (0::idx_t) * 1024)
              \<and> map base [0..<min 1024 (unat (col_count ex_col_updated) - unat (0::idx_t) * 1024)]
                  = take (min 1024 (unat (col_count ex_col_updated) - unat (0::idx_t) * 1024))
                      (drop (unat (0::idx_t) * 1024) (column_rows (data ex_col_updated)))"
    by blast
  from at pos have "unat n = 5" and cells: "map base [0..<5] = [Some 0, Some 1, Some 2, Some 3, Some 4]"
    unfolding c cr by (simp_all add: STANDARD_VECTOR_SIZE_def)
  then have n5: "n = 5" by (simp only: u)
  have t: "\<exists>state' base.
         Scan ex_env ex_col_updated ex_transaction 0 ex_state (\<lambda>k. None)
           = Inr (state', UpdateSegment_FetchUpdates [ex_committed] ex_transaction 0 base, 5)
         \<and> map base [0..<5] = [Some 0, Some 1, Some 2, Some 3, Some 4]"
    using s cells unfolding n5 c
    by (intro exI [of _ state'] exI [of _ base]) simp
  have e: "(case Scan ex_env ex_col_updated ex_transaction 0 ex_state (\<lambda>k. None) of
         Inl e \<Rightarrow> False
       | Inr (state', res', n) \<Rightarrow>
           n = 5 \<and> map res' [0..<5] = [Some 0, Some 100, Some 2, Some 3, Some 4])"
    by code_simp
  from Scan_vector_block [OF tv(2) g, of ex_env ex_transaction "\<lambda>k. None"]
  obtain state2 base2 n2 where
    s2: "Scan ex_env ex_long ex_transaction 1 ex_state (\<lambda>k. None)
       = Inr (state2, (case updates ex_long of None \<Rightarrow> base2
                | Some u \<Rightarrow> UpdateSegment_FetchUpdates u ex_transaction 1 base2), n2)"
    and n2: "unat n2 = min (min 1024 (unat (col_count ex_long) - unat (1::idx_t) * 1024))
                      (unat (col_count ex_long) - (unat (row_index ex_state) - unat (col_start ex_long)))"
    and cells2: "map base2 [0..<unat n2]
             = take (unat n2)
                 (drop (unat (row_index ex_state) - unat (col_start ex_long)) (column_rows (data ex_long)))"
    and row2: "row_index state2 = row_index ex_state + n2"
    by blast
  from n2 have "unat n2 = 1024"
    unfolding c by simp
  then have n1024: "n2 = 1024" and un: "unat n2 = 1024" by (simp_all only: u)
  have l: "\<exists>state' base.
         Scan ex_env ex_long ex_transaction 1 ex_state (\<lambda>k. None) = Inr (state', base, 1024)
         \<and> map base [0..<1024] = take 1024 (column_rows (data ex_long))
         \<and> row_index state' = 1024"
    using s2 cells2 row2 unfolding un unfolding n1024 c
    by (intro exI [of _ state2] exI [of _ base2]) simp
  from tv(1) h(1,2,3) pos h(4,5) ni t e tv(2) g(1,3,4,5) npos l show ?thesis
    by (intro conjI)
qed

text \<open>
  Claim C4 as stated fails when the cursor is not at the block: \<^verbatim>\<open>Scan\<close> of
  vector block 1 of a column of 2048 rows, with the cursor at row 0, decodes 1024 rows
  from row 0 on, not from row 1024 on.
\<close>

theorem Scan_cursor_row_counterexample:
  "unat (1::idx_t) * 1024 < unat (col_count ex_long)
   \<and> min 1024 (unat (col_count ex_long) - unat (1::idx_t) * 1024) = 1024
   \<and> drop (unat (1::idx_t) * 1024) (column_rows (data ex_long)) ! 0 = Some 1024
   \<and> current ex_state = Some 0 \<and> row_index ex_state = 0
   \<and> (case Scan ex_env ex_long ex_transaction 1 ex_state (\<lambda>k. None) of
         Inl e \<Rightarrow> False
       | Inr (state', res', n) \<Rightarrow> n = 1024 \<and> res' 0 = Some 0 \<and> res' 0 \<noteq> Some 1024)"
proof -
  have a: "unat (1::idx_t) * 1024 < unat (col_count ex_long)"
    "min 1024 (unat (col_count ex_long) - unat (1::idx_t) * 1024) = 1024"
    "current ex_state = Some 0" "row_index ex_state = 0"
    by (simp_all add: ex_long_def ex_state_def)
  have b: "drop (unat (1::idx_t) * 1024) (column_rows (data ex_long)) ! 0 = Some 1024"
    by (simp add: ex_long_def column_rows_def seg_rows_def ex_seg_def)
  have c: "(case Scan ex_env ex_long ex_transaction 1 ex_state (\<lambda>k. None) of
         Inl e \<Rightarrow> False
       | Inr (state', res', n) \<Rightarrow> n = 1024 \<and> res' 0 = Some 0 \<and> res' 0 \<noteq> Some 1024)"
    by code_simp
  from a(1,2) b a(3,4) c show ?thesis
    by (intro conjI)
qed

lemma block_start:
  fixes a :: idx_t
  shows "unat (a div STANDARD_VECTOR_SIZE * STANDARD_VECTOR_SIZE) = unat a div 1024 * 1024"
    and "a div STANDARD_VECTOR_SIZE * STANDARD_VECTOR_SIZE \<le> a"
proof -
  have le: "unat a div 1024 * 1024 \<le> unat a"
    by simp
  have d: "unat (a div 1024) = unat a div 1024"
    by (simp add: unat_div)
  have "unat (a div 1024) * unat (1024::idx_t) < 2 ^ 64"
    using le unat_lt64 [of a] by (simp add: d)
  then have m: "unat (a div 1024 * 1024) = unat (a div 1024) * unat (1024::idx_t)"
    by (simp add: unat_mult_lem [THEN iffD1])
  show "unat (a div STANDARD_VECTOR_SIZE * STANDARD_VECTOR_SIZE) = unat a div 1024 * 1024"
    by (simp add: STANDARD_VECTOR_SIZE_def m d)
  then show "a div STANDARD_VECTOR_SIZE * STANDARD_VECTOR_SIZE \<le> a"
    using le by (simp add: word_le_nat_alt)
qed


lemma contains_row_bounds:
  assumes "contains_row seg r"
  shows "start seg \<le> r" and "unat r < unat (start seg) + unat (count seg)"
proof -
  from assms show lo: "start seg \<le> r"
    by (simp add: contains_row_def)
  from assms have "unat (r - start seg) < unat (count seg)"
    by (simp add: contains_row_def word_less_nat_alt)
  moreover have "unat (r - start seg) = unat r - unat (start seg)"
    using lo by (simp add: unat_sub)
  moreover have "unat (start seg) \<le> unat r"
    using lo by (simp add: word_le_nat_alt)
  ultimately show "unat r < unat (start seg) + unat (count seg)"
    by linarith
qed

lemma ScanVector_updates:
  "ScanVector env (col\<lparr>updates := u\<rparr>) state res r hu = ScanVector env col state res r hu"
  by (simp add: ScanVector_def Let_def cong: sum.case_cong option.case_cong if_cong)

lemma Fetch_position_updates:
  "Fetch_position (col\<lparr>updates := u\<rparr>) state row_id = Fetch_position col state row_id"
  by (simp add: Fetch_position_def Let_def cong: sum.case_cong)

text \<open>
  Claim C6, as amended. Let the tree be valid and \<open>row_id\<close> a row of the column. Then
  \<^verbatim>\<open>Fetch\<close> puts the cursor at the first row of the aligned 1024-row block of
  \<open>row_id\<close>, \<open>col_start + (row_id - col_start) div 1024 * 1024\<close>, in the segment that
  holds that row, asks for 1024 rows and returns the rows the column has from there on,
  1024 at most: the whole block exactly when the column reaches the block's end, the rest
  of the column otherwise. The update overlay plays no part in the result.
\<close>

theorem Fetch_block:
  fixes env :: "('v, 'st) Env" and col :: "('v, 'st) ColumnData" and row_id :: row_t
  assumes tv: "tree_valid col"
    and lo: "col_start col \<le> row_id"
    and hi: "unat row_id < unat (col_start col) + unat (col_count col)"
    and sg: "0 \<le>s row_id"
  shows "\<exists>state1 i state' res' n.
           Fetch_position col state row_id = Inr state1
         \<and> row_index state1
             = col_start col
               + (row_id - col_start col) div STANDARD_VECTOR_SIZE * STANDARD_VECTOR_SIZE
         \<and> unat (row_index state1)
             = unat (col_start col) + unat (row_id - col_start col) div 1024 * 1024
         \<and> current state1 = Some i \<and> i < length (data col)
         \<and> contains_row (data col ! i) (row_index state1)
         \<and> Fetch env col state row_id res = Inr (state', res', n)
         \<and> unat n = min 1024 (unat (col_count col) - unat (row_id - col_start col) div 1024 * 1024)
         \<and> map res' [0..<unat n]
             = take (unat n)
                 (drop (unat (row_id - col_start col) div 1024 * 1024) (column_rows (data col)))
         \<and> (\<forall>k\<ge>unat n. res' k = res k)
         \<and> (n = STANDARD_VECTOR_SIZE)
             = (unat (row_id - col_start col) div 1024 * 1024 + 1024 \<le> unat (col_count col))
         \<and> Fetch env (col\<lparr>updates := u\<rparr>) state row_id res = Fetch env col state row_id res"
proof -
  let ?segs = "data col"
  let ?off = "(row_id - col_start col) div STANDARD_VECTOR_SIZE * STANDARD_VECTOR_SIZE"
  let ?b = "unat (row_id - col_start col) div 1024 * 1024"
  let ?r0 = "col_start col + ?off"
  have urel: "unat (row_id - col_start col) = unat row_id - unat (col_start col)"
    using lo by (simp add: unat_sub)
  have ule: "unat (col_start col) \<le> unat row_id"
    using lo by (simp add: word_le_nat_alt)
  have uoff: "unat ?off = ?b" and offle: "?off \<le> row_id - col_start col"
    by (rule block_start)+
  have ble: "?b \<le> unat row_id - unat (col_start col)"
    using offle by (simp add: word_le_nat_alt uoff urel)
  have "unat (col_start col) + ?b < 2 ^ 64"
    using ble ule unat_lt64 [of row_id] by linarith
  then have "unat (col_start col) + unat ?off < 2 ^ 64"
    by (simp only: uoff)
  then have "unat ?r0 = unat (col_start col) + unat ?off"
    by (simp add: unat_add_lem [THEN iffD1])
  then have ur0: "unat ?r0 = unat (col_start col) + ?b"
    by (simp only: uoff)
  have ne: "?segs \<noteq> []"
  proof
    assume "?segs = []"
    with tv have "unat (col_count col) = 0" by (simp add: tree_valid_def column_rows_def)
    with hi ule show False by simp
  qed
  from tv ne have ct: "contiguous ?segs" and hd: "start (hd ?segs) = col_start col"
    and len: "length (column_rows ?segs) = unat (col_count col)"
    by (simp_all add: tree_valid_def)
  have r0lo: "start (hd ?segs) \<le> ?r0"
    by (simp add: hd word_le_nat_alt ur0)
  have r0hi: "unat ?r0 < unat (start (hd ?segs)) + length (column_rows ?segs)"
    using hi ble ule by (simp add: hd len ur0)
  from find_segment_contiguous [OF ct ne r0lo r0hi, of 0]
  obtain i where fs: "find_segment ?segs ?r0 0 = Some i" and i: "i < length ?segs"
    and own: "contains_row (?segs ! i) ?r0"
    by auto
  let ?state1 = "state\<lparr>row_index := ?r0, current := Some i,
                       internal_index := start (?segs ! i)\<rparr>"
  have fp: "Fetch_position col state row_id = Inr ?state1"
    using fs by (simp add: Fetch_position_def Let_def GetSegment_def GetSegmentIndex_def)
  have slo: "start (?segs ! i) \<le> ?r0"
    using own by (rule contains_row_bounds)
  have nov: "unat (start (?segs ! i)) + unat (count (?segs ! i)) < 2 ^ 64"
    using contiguous_head [of "?segs ! i" "drop (Suc i) ?segs"] contiguous_drop [OF ct, of i] i
    by (simp add: Cons_nth_drop_Suc)
  have shi: "unat ?r0 \<le> unat (start (?segs ! i)) + unat (count (?segs ! i))"
    using contains_row_bounds(2) [OF own] by simp
  have f: "Fetch env col state row_id res
             = ScanVector env col ?state1 res STANDARD_VECTOR_SIZE False"
    using lo sg fp by (simp add: Fetch_def)
  have avail: "rows_from ?segs i ?r0 = drop ?b (column_rows ?segs)"
    using rows_from_eq [OF ct i slo] by (simp add: hd ur0)
  have alen: "length (rows_from ?segs i ?r0) = unat (col_count col) - ?b"
    by (simp add: avail len)
  from ScanVector_decoded [of ?state1 i col, OF _ i contiguous_drop [OF ct] _ _ _,
         of env res STANDARD_VECTOR_SIZE False]
  obtain state' res' n where
    sv: "ScanVector env col ?state1 res STANDARD_VECTOR_SIZE False = Inr (state', res', n)"
    and n: "unat n = min (unat STANDARD_VECTOR_SIZE) (length (rows_from ?segs i ?r0))"
    and cells: "map res' [0..<unat n] = take (unat n) (rows_from ?segs i ?r0)"
    and rest: "\<forall>k\<ge>unat n. res' k = res k"
    using slo shi by auto
  have n': "unat n = min 1024 (unat (col_count col) - ?b)"
    using n unfolding alen by (simp add: STANDARD_VECTOR_SIZE_def)
  have whole: "(n = STANDARD_VECTOR_SIZE) = (?b + 1024 \<le> unat (col_count col))"
    using n' by (auto simp: word_unat_eq_iff STANDARD_VECTOR_SIZE_def)
  have noupd: "Fetch env (col\<lparr>updates := u\<rparr>) state row_id res = Fetch env col state row_id res"
    by (simp add: Fetch_def Fetch_position_updates ScanVector_updates cong: sum.case_cong)
  show ?thesis
    apply (rule exI [of _ ?state1])
    apply (rule exI [of _ i])
    apply (rule exI [of _ state'])
    apply (rule exI [of _ res'])
    apply (rule exI [of _ n])
    using fp ur0 i own f sv n' cells rest whole noupd unfolding avail
    by simp
qed


theorem Fetch_block_witness:
  "tree_valid ex_col \<and> col_start ex_col \<le> 3
   \<and> unat (3::idx_t) < unat (col_start ex_col) + unat (col_count ex_col) \<and> 0 \<le>s (3::idx_t)
   \<and> (\<exists>state' res'.
         Fetch ex_env ex_col ex_state 3 (\<lambda>k. None) = Inr (state', res', 5)
         \<and> map res' [0..<5] = [Some 0, Some 1, Some 2, Some 3, Some 4])
   \<and> tree_valid ex_long \<and> col_start ex_long \<le> 1500
   \<and> unat (1500::idx_t) < unat (col_start ex_long) + unat (col_count ex_long)
   \<and> 0 \<le>s (1500::idx_t)
   \<and> (\<exists>state1 state' res'.
         Fetch_position ex_long ex_state 1500 = Inr state1 \<and> row_index state1 = 1024
         \<and> Fetch ex_env ex_long ex_state 1500 (\<lambda>k. None) = Inr (state', res', 1024))"
proof -
  have tv: "tree_valid ex_col" "tree_valid ex_long"
    by (simp_all add: tree_valid_def ex_long_def ex_col_def ex_seg_def ex_root_def
          ColumnData_new_def column_rows_def seg_rows_def)
  have h: "col_start ex_col \<le> 3"
    "unat (3::idx_t) < unat (col_start ex_col) + unat (col_count ex_col)" "0 \<le>s (3::idx_t)"
    by (simp_all add: ex_col_def ex_root_def ColumnData_new_def word_sle_eq)
  have g: "col_start ex_long \<le> 1500"
    "unat (1500::idx_t) < unat (col_start ex_long) + unat (col_count ex_long)"
    "0 \<le>s (1500::idx_t)"
    by (simp_all add: ex_long_def ex_root_def ColumnData_new_def word_sle_eq)
  have c: "col_start ex_col = 0" "col_count ex_col = 5" "col_start ex_long = 0"
    "col_count ex_long = 2048"
    by (simp_all add: ex_col_def ex_long_def ex_root_def ColumnData_new_def)
  have cr: "column_rows (data ex_col) = [Some 0, Some 1, Some 2, Some 3, Some 4]"
    by code_simp
  have u: "unat n = 5 \<longleftrightarrow> n = 5" for n :: idx_t
    by (simp add: word_unat_eq_iff)
  from Fetch_block [OF tv(1) h, of ex_state ex_env "\<lambda>k. None"]
  obtain state' res' n where
    f: "Fetch ex_env ex_col ex_state 3 (\<lambda>k. None) = Inr (state', res', n)"
    and n: "unat n = min 1024 (unat (col_count ex_col) - unat (3 - col_start ex_col) div 1024 * 1024)"
    and cells: "map res' [0..<unat n]
             = take (unat n)
                 (drop (unat (3 - col_start ex_col) div 1024 * 1024) (column_rows (data ex_col)))"
    by blast
  from n have "unat n = 5" by (simp add: c)
  then have n5: "n = 5" by (simp only: u)
  have a: "\<exists>state' res'.
         Fetch ex_env ex_col ex_state 3 (\<lambda>k. None) = Inr (state', res', 5)
         \<and> map res' [0..<5] = [Some 0, Some 1, Some 2, Some 3, Some 4]"
    using f cells unfolding n5 c cr
    by (intro exI [of _ state'] exI [of _ res']) simp
  from Fetch_block [OF tv(2) g, of ex_state ex_env "\<lambda>k. None"]
  obtain state1 state2 res2 n2 where
    p: "Fetch_position ex_long ex_state 1500 = Inr state1"
    and r: "row_index state1
             = col_start ex_long
               + (1500 - col_start ex_long) div STANDARD_VECTOR_SIZE * STANDARD_VECTOR_SIZE"
    and f2: "Fetch ex_env ex_long ex_state 1500 (\<lambda>k. None) = Inr (state2, res2, n2)"
    and w: "(n2 = STANDARD_VECTOR_SIZE)
             = (unat (1500 - col_start ex_long) div 1024 * 1024 + 1024 \<le> unat (col_count ex_long))"
    by blast
  from w have n2: "n2 = 1024"
    by (simp add: c STANDARD_VECTOR_SIZE_def)
  from r have r1: "row_index state1 = 1024"
    by (simp add: c STANDARD_VECTOR_SIZE_def)
  have b: "\<exists>state1 state' res'.
         Fetch_position ex_long ex_state 1500 = Inr state1 \<and> row_index state1 = 1024
         \<and> Fetch ex_env ex_long ex_state 1500 (\<lambda>k. None) = Inr (state', res', 1024)"
    using p r1 f2 unfolding n2
    by (intro exI [of _ state1] exI [of _ state2] exI [of _ res2]) simp
  from tv(1) h a tv(2) g b show ?thesis
    by (intro conjI)
qed

text \<open>
  Claim C6 as stated fails in the last block of a column: row 3 of a column of 5 rows is
  a valid row id, and \<^verbatim>\<open>Fetch\<close> decodes 5 rows, not 1024.
\<close>

theorem Fetch_partial_block_counterexample:
  "col_start ex_col \<le> 3
   \<and> unat (3::idx_t) < unat (col_start ex_col) + unat (col_count ex_col)
   \<and> (case Fetch ex_env ex_col ex_state 3 (\<lambda>k. None) of
         Inl e \<Rightarrow> False
       | Inr (state', res', n) \<Rightarrow> n = 5 \<and> n \<noteq> STANDARD_VECTOR_SIZE \<and> res' 5 = None)"
  by code_simp

section \<open>Reading the update overlay through a scan\<close>






section \<open>The statistics object stays where the constructor put it\<close>

lemma AppendTransientSegment_owner:
  "parent (AppendTransientSegment env col sr) = parent col"
  "col_stats (AppendTransientSegment env col sr) = col_stats col"
  by (simp_all add: AppendTransientSegment_def Let_def)

lemma AppendData_loop_owner:
  assumes "AppendData_loop env col append_stats state vdata offset append_count = Some y"
  shows "\<forall>col1 stats1 state1. y = Inr (col1, stats1, state1) \<longrightarrow>
           parent col1 = parent col \<and> col_stats col1 = col_stats col"
  by (rule AppendData_loop.raw_induct
        [where P = "\<lambda>env col append_stats state vdata offset append_count y.
                      \<forall>col1 stats1 state1. y = Inr (col1, stats1, state1) \<longrightarrow>
                        parent col1 = parent col \<and> col_stats col1 = col_stats col", OF _ assms])
     (auto simp: Let_def AppendTransientSegment_owner split: option.splits if_splits prod.splits)

lemma stats_presence_preserved:
  assumes "stats_presence col"
  shows "stats_presence (SetStart col new_start)"
    and "stats_presence (ClearUpdates col)"
    and "MergeStatistics env col other = Inr col1 \<Longrightarrow> stats_presence col1"
    and "InitializeAppend env col app = Inr (col2, app2) \<Longrightarrow> stats_presence col2"
    and "Append env col app vector n = Some (Inr (col3, app3)) \<Longrightarrow> stats_presence col3"
    and "RevertAppend env col start_row = Inr col4 \<Longrightarrow> stats_presence col4"
    and "Checkpoint env checkpointer col = Inr (col5, cs) \<Longrightarrow> stats_presence col5"
    and "stats_presence (fst (DeserializeColumn env col dps target_stats))"
proof -
  show "stats_presence (SetStart col new_start)"
    using assms by (simp add: stats_presence_def SetStart_def Let_def)
  show "stats_presence (ClearUpdates col)"
    using assms by (simp add: stats_presence_def ClearUpdates_def)
  show "MergeStatistics env col other = Inr col1 \<Longrightarrow> stats_presence col1"
    using assms by (auto simp: stats_presence_def MergeStatistics_def split: option.splits)
  show "InitializeAppend env col app = Inr (col2, app2) \<Longrightarrow> stats_presence col2"
    using assms
    by (auto simp: stats_presence_def InitializeAppend_def Let_def AppendTransientSegment_owner
          split: sum.splits if_splits)
  show "Append env col app vector n = Some (Inr (col3, app3)) \<Longrightarrow> stats_presence col3"
    using assms AppendData_loop_owner
    by (fastforce simp: stats_presence_def Append_def Append_stats_def AppendData_def Let_def
          split: option.splits sum.splits if_splits)
  show "RevertAppend env col start_row = Inr col4 \<Longrightarrow> stats_presence col4"
    using assms
    by (auto simp: stats_presence_def RevertAppend_def Let_def split: sum.splits if_splits)
  show "Checkpoint env checkpointer col = Inr (col5, cs) \<Longrightarrow> stats_presence col5"
    using assms
    by (auto simp: stats_presence_def Checkpoint_def Let_def ClearUpdates_def
          split: sum.splits if_splits)
  show "stats_presence (fst (DeserializeColumn env col dps target_stats))"
    using assms by (simp add: stats_presence_def DeserializeColumn_def DeserializeColumn_loop_eq)
qed

end
